theory Spec2Isabelle
  imports Main "HOL-Library.Sublist"
begin

chapter \<open>The sitemap crawler (crawler.py)\<close>

text \<open>
  A shallow embedding of \<^verbatim>\<open>crawler.py\<close>. A Python \<^verbatim>\<open>str\<close> is a \<^typ>\<open>string\<close>, one
  \<^typ>\<open>char\<close> for each character (code points up to 255). Everything the module takes from
  outside itself (the regular-expression class \<^verbatim>\<open>\w\<close>, \<^verbatim>\<open>urlparse\<close>, the clock, the console,
  the HTTP layer, the XML parser, the page fetcher and the file system) is a parameter of
  the function that uses it. An exception is a value: a function that may raise returns
  \<open>Inl\<close> of the exception or \<open>Inr\<close> of its result, and every \<^verbatim>\<open>except Exception\<close> of the source
  is a case distinction on it. A \<^verbatim>\<open>print\<close> writes to the console and may raise (an encoding
  error, a closed stream): each one that can change what a function returns is a step of
  the model, named by its line in the source.
\<close>

section \<open>String operations of the Python library\<close>

text \<open>\<^verbatim>\<open>s.rstrip(chars)\<close>, \<^verbatim>\<open>s.lstrip(chars)\<close> and \<^verbatim>\<open>s.strip(chars)\<close>.\<close>

definition rstrip :: "string \<Rightarrow> string \<Rightarrow> string" where
  "rstrip s chars = rev (dropWhile (\<lambda>c. c \<in> set chars) (rev s))"

definition lstrip :: "string \<Rightarrow> string \<Rightarrow> string" where
  "lstrip s chars = dropWhile (\<lambda>c. c \<in> set chars) s"

definition strip :: "string \<Rightarrow> string \<Rightarrow> string" where
  "strip s chars = rstrip (lstrip s chars) chars"

text \<open>\<^verbatim>\<open>s.startswith(p)\<close>; \<^verbatim>\<open>x in s\<close> is \<^const>\<open>sublist\<close> (a contiguous run).\<close>

definition startswith :: "string \<Rightarrow> string \<Rightarrow> bool" where
  "startswith s p = prefix p s"

text \<open>
  \<^verbatim>\<open>s.lower()\<close>: the letters A to Z and the capital letters of Latin-1 (192 to 222 but
  the multiplication sign 215) move up by 32, every other character stays.
\<close>

definition lower_char :: "char \<Rightarrow> char" where
  "lower_char c =
     (let n = (of_char c :: nat)
      in if (65 \<le> n \<and> n \<le> 90) \<or> (192 \<le> n \<and> n \<le> 222 \<and> n \<noteq> 215)
         then char_of (n + 32) else c)"

definition lower :: "string \<Rightarrow> string" where
  "lower s = map lower_char s"

section \<open>Sitemap URL formatting\<close>

text \<open>
  \<^verbatim>\<open>format_sitemap_url\<close> (lines 93 to 107). The source rebinds \<^verbatim>\<open>url\<close> twice; the two
  \<open>let\<close>s follow it.
\<close>

definition format_sitemap_url :: "string \<Rightarrow> string" where
  "format_sitemap_url url0 =
     (let url = rstrip url0 ''/'';
          url = (if \<not> (startswith url ''http://'' \<or> startswith url ''https://'')
                 then ''https://'' @ url else url)
      in if list_ex (\<lambda>x. sublist x (lower url)) [''sitemap'', ''sitemap.xml'', ''sitemap_index.xml'']
         then url
         else url @ ''/sitemap.xml'')"

section \<open>Exceptions\<close>

text \<open>The exceptions the module can meet.\<close>

datatype exn = ValueError | MissingSchema | ConnectionError | HTTPError nat | ParseError
  | RecursionError | IndexError | OSError | AttributeError | UnicodeEncodeError
  | ZeroDivisionError | CancelledError | KeyboardInterrupt | SystemExit

text \<open>
  \<^verbatim>\<open>isinstance(e, Exception)\<close>: what \<^verbatim>\<open>except Exception\<close> catches. \<^verbatim>\<open>CancelledError\<close>,
  \<^verbatim>\<open>KeyboardInterrupt\<close> and \<^verbatim>\<open>SystemExit\<close> derive from \<^verbatim>\<open>BaseException\<close> only.
\<close>

fun is_exception :: "exn \<Rightarrow> bool" where
  "is_exception CancelledError = False"
| "is_exception KeyboardInterrupt = False"
| "is_exception SystemExit = False"
| "is_exception e = True"

section \<open>Saving a page\<close>

text \<open>The fields of \<^verbatim>\<open>urlparse\<close>'s result that the module reads.\<close>

record parse_result =
  scheme :: string
  netloc :: string
  path :: string

text \<open>
  A reading of the clock (\<^verbatim>\<open>datetime.now()\<close>) and its format \<^verbatim>\<open>%Y%m%d_%H%M%S\<close>: the year
  in four digits, the other fields in two, padded with zeros.
\<close>

record datetime =
  year :: nat
  month :: nat
  day :: nat
  hour :: nat
  minute :: nat
  second :: nat

definition valid_datetime :: "datetime \<Rightarrow> bool" where
  "valid_datetime t =
     (1000 \<le> year t \<and> year t \<le> 9999 \<and> 1 \<le> month t \<and> month t \<le> 12
      \<and> 1 \<le> day t \<and> day t \<le> 31 \<and> hour t \<le> 23 \<and> minute t \<le> 59 \<and> second t \<le> 59)"

definition digit_char :: "nat \<Rightarrow> char" where
  "digit_char d = char_of (48 + d)"

fun decimal :: "nat \<Rightarrow> string" where
  "decimal n = (if n < 10 then [digit_char n] else decimal (n div 10) @ [digit_char (n mod 10)])"

declare decimal.simps [simp del]

definition zero_pad :: "nat \<Rightarrow> nat \<Rightarrow> string" where
  "zero_pad w n = replicate (w - length (decimal n)) CHR ''0'' @ decimal n"

definition strftime_stamp :: "datetime \<Rightarrow> string" where
  "strftime_stamp t =
     zero_pad 4 (year t) @ zero_pad 2 (month t) @ zero_pad 2 (day t) @ ''_''
     @ zero_pad 2 (hour t) @ zero_pad 2 (minute t) @ zero_pad 2 (second t)"

text \<open>
  \<^verbatim>\<open>re.sub(r'[^\w\-_.]', '_', s)\<close> (line 29). The class \<^verbatim>\<open>\w\<close> belongs to the regular
  expression engine and is the parameter \<open>word_char\<close>.
\<close>

definition re_sub_invalid :: "(char \<Rightarrow> bool) \<Rightarrow> string \<Rightarrow> string" where
  "re_sub_invalid word_char s =
     map (\<lambda>c. if \<not> (word_char c \<or> c = CHR ''-'' \<or> c = CHR ''_'' \<or> c = CHR ''.'') then CHR ''_'' else c) s"

text \<open>
  The variable \<^verbatim>\<open>filename\<close> of \<^verbatim>\<open>save_markdown_file\<close> (lines 24 to 37): the name of the file
  that the function then writes under \<^verbatim>\<open>MARKDOWN_DIR\<close>. \<^verbatim>\<open>urlparse\<close> raises \<^verbatim>\<open>ValueError\<close> on
  a malformed bracketed host; nothing in the function catches it.
\<close>

definition save_markdown_file_filename ::
  "(char \<Rightarrow> bool) \<Rightarrow> (string \<Rightarrow> exn + parse_result) \<Rightarrow> datetime \<Rightarrow> string \<Rightarrow> exn + string" where
  "save_markdown_file_filename word_char urlparse now url =
     (case urlparse url of
        Inl e \<Rightarrow> Inl e
      | Inr parsed_url \<Rightarrow>
          (let domain = netloc parsed_url;
               path' = strip (path parsed_url) ''/'';
               filename = re_sub_invalid word_char (domain @ ''_'' @ path');
               filename = (if length filename > 200 then take 200 filename else filename);
               timestamp = strftime_stamp now;
               filename = filename @ ''_'' @ timestamp @ ''.md''
           in Inr filename))"


section \<open>Crawling one URL with retries\<close>

text \<open>
  What \<^verbatim>\<open>crawler.arun\<close> returns (the fields the module reads), and what one task meets:
  \<open>arun b n\<close> is the outcome of the call of \<^verbatim>\<open>crawler.arun\<close> in iteration \<open>n\<close> of the task's
  retry loop, \<open>store b n\<close> the outcome of lines 256 to 258 in that iteration (reading
  \<^verbatim>\<open>result.markdown_v2.raw_markdown\<close> and awaiting \<^verbatim>\<open>process_and_store_document\<close>, which
  writes the file), \<open>print_raises b n l\<close> the exception, if any, that the \<^verbatim>\<open>print\<close> of line
  \<open>l\<close> raises in that iteration. Each of the three may raise any exception, also one that
  \<^verbatim>\<open>except Exception\<close> does not catch.
\<close>

record crawl_result =
  success :: bool
  raw_markdown :: string
  error_message :: string

record behaviour =
  arun :: "nat \<Rightarrow> exn + crawl_result"
  store :: "nat \<Rightarrow> exn + unit"
  print_raises :: "nat \<Rightarrow> nat \<Rightarrow> exn option"

text \<open>
  The state the tasks share: the two \<^verbatim>\<open>nonlocal\<close> counters, and the calls made so far
  (\<^verbatim>\<open>crawler.arun(url)\<close>, line 256 reached for \<open>url\<close> with the markdown,
  \<^verbatim>\<open>asyncio.sleep(n)\<close>). The counters keep what was added to them when an exception
  leaves the task.
\<close>

datatype event = Arun string | Store string string | Sleep nat

record crawl_state =
  processed_urls :: nat
  failed_urls :: nat
  trace :: "event list"

text \<open>
  How a piece of the loop body ends: with the \<^verbatim>\<open>return\<close> of line 259, at the end of the
  body, or with an exception on its way out. \<open>print_then b retry l s rest\<close> is the
  \<^verbatim>\<open>print\<close> of line \<open>l\<close> in state \<open>s\<close>, followed by \<open>rest\<close> when it raises nothing.
\<close>

datatype control = Return | Next | Raise exn

definition print_then ::
  "behaviour \<Rightarrow> nat \<Rightarrow> nat \<Rightarrow> crawl_state \<Rightarrow> control \<times> crawl_state \<Rightarrow> control \<times> crawl_state" where
  "print_then b retry line s rest =
     (case print_raises b retry line of Some e \<Rightarrow> (Raise e, s) | None \<Rightarrow> rest)"

text \<open>
  The body of the \<^verbatim>\<open>try\<close> (lines 233 to 267). \<^verbatim>\<open>processed_urls\<close> goes up before the page
  is stored; after the increment it is positive, so the message is that of line 247,
  which here stands for lines 239 to 250 (the arithmetic on the times and the print).
  \<^verbatim>\<open>asyncio.sleep\<close> raises only when the task is cancelled, which nothing in the module
  does: the sleeps of lines 264 and 272 return.
\<close>

definition try_body ::
  "int \<Rightarrow> string \<Rightarrow> behaviour \<Rightarrow> nat \<Rightarrow> crawl_state \<Rightarrow> control \<times> crawl_state" where
  "try_body max_retries url b retry s0 =
     (let s = s0\<lparr>trace := trace s0 @ [Arun url]\<rparr>
      in case arun b retry of
           Inl e \<Rightarrow> (Raise e, s)
         | Inr result \<Rightarrow>
             if success result
             then (let s = s\<lparr>processed_urls := processed_urls s + 1\<rparr>
                   in print_then b retry 247 s
                        (let s = s\<lparr>trace := trace s @ [Store url (raw_markdown result)]\<rparr>
                         in case store b retry of
                              Inl e \<Rightarrow> (Raise e, s)
                            | Inr _ \<Rightarrow> (Return, s)))
             else print_then b retry 261 s
                    (if int retry < max_retries - 1
                     then print_then b retry 263 s (Next, s\<lparr>trace := trace s @ [Sleep 2]\<rparr>)
                     else (let s = s\<lparr>failed_urls := failed_urls s + 1\<rparr>
                           in print_then b retry 267 s (Next, s))))"

text \<open>The handler (lines 269 to 275); an exception raised in it leaves the loop.\<close>

definition on_exception :: "int \<Rightarrow> behaviour \<Rightarrow> nat \<Rightarrow> crawl_state \<Rightarrow> control \<times> crawl_state" where
  "on_exception max_retries b retry s =
     print_then b retry 269 s
       (if int retry < max_retries - 1
        then print_then b retry 271 s (Next, s\<lparr>trace := trace s @ [Sleep 2]\<rparr>)
        else (let s = s\<lparr>failed_urls := failed_urls s + 1\<rparr>
              in print_then b retry 275 s (Next, s)))"

text \<open>
  One iteration of the loop (lines 232 to 275): the handler runs for the subclasses of
  \<^verbatim>\<open>Exception\<close>, every other exception leaves the loop.
\<close>

definition attempt ::
  "int \<Rightarrow> string \<Rightarrow> behaviour \<Rightarrow> nat \<Rightarrow> crawl_state \<Rightarrow> control \<times> crawl_state" where
  "attempt max_retries url b retry s0 =
     (case try_body max_retries url b retry s0 of
        (Raise e, s) \<Rightarrow> if is_exception e then on_exception max_retries b retry s else (Raise e, s)
      | (Return, s) \<Rightarrow> (Return, s)
      | (Next, s) \<Rightarrow> (Next, s))"

text \<open>
  \<^verbatim>\<open>for retry in range(max_retries)\<close>, and \<^verbatim>\<open>process_url\<close> (lines 228 to 275): the exception
  that leaves it, if any, and the shared state it leaves behind.
\<close>

fun retry_loop ::
  "int \<Rightarrow> string \<Rightarrow> behaviour \<Rightarrow> nat list \<Rightarrow> crawl_state \<Rightarrow> exn option \<times> crawl_state" where
  "retry_loop max_retries url b [] s = (None, s)"
| "retry_loop max_retries url b (retry # rest) s =
     (case attempt max_retries url b retry s of
        (Return, s') \<Rightarrow> (None, s')
      | (Next, s') \<Rightarrow> retry_loop max_retries url b rest s'
      | (Raise e, s') \<Rightarrow> (Some e, s'))"

definition process_url ::
  "int \<Rightarrow> string \<Rightarrow> behaviour \<Rightarrow> crawl_state \<Rightarrow> exn option \<times> crawl_state" where
  "process_url max_retries url b s = retry_loop max_retries url b [0..<nat max_retries] s"

text \<open>
  The fetch of iteration \<open>r\<close> fails: \<^verbatim>\<open>arun\<close> raises a subclass of \<^verbatim>\<open>Exception\<close>, or reports
  \<^verbatim>\<open>success\<close> false. A task is quiet when none of its prints raises.
\<close>

definition fails_at :: "behaviour \<Rightarrow> nat \<Rightarrow> bool" where
  "fails_at b r = (case arun b r of Inl e \<Rightarrow> is_exception e | Inr result \<Rightarrow> \<not> success result)"

definition quiet :: "behaviour \<Rightarrow> bool" where
  "quiet b = (\<forall>r l. print_raises b r l = None)"

section \<open>Crawling a list of URLs\<close>

text \<open>
  What \<^verbatim>\<open>crawl_parallel\<close> itself meets: the two readings of the clock (lines 207 and 280,
  in microseconds), and \<open>top_raises w l\<close>, the exception, if any, raised by line \<open>l\<close>: the
  prints of lines 204, 208, 283 to 287, 292 and 294, the creation and start of the browser
  (lines 210 to 218, under 218) and its end (line 305).
\<close>

record run =
  start_time :: int
  end_time :: int
  top_raises :: "nat \<Rightarrow> exn option"

text \<open>The first of the given lines that raises.\<close>

fun first_raise :: "(nat \<Rightarrow> exn option) \<Rightarrow> nat list \<Rightarrow> exn option" where
  "first_raise raises [] = None"
| "first_raise raises (line # lines) =
     (case raises line of Some e \<Rightarrow> Some e | None \<Rightarrow> first_raise raises lines)"

text \<open>
  The summary (lines 280 to 294). Line 293 divides by \<^verbatim>\<open>total_time.total_seconds()\<close>, which
  is zero when the two readings of the clock are equal; the only guard is
  \<^verbatim>\<open>processed_urls > 0\<close>.
\<close>

definition summary :: "run \<Rightarrow> crawl_state \<Rightarrow> exn option" where
  "summary w s =
     (case first_raise (top_raises w) [283, 284, 285, 286, 287] of
        Some e \<Rightarrow> Some e
      | None \<Rightarrow>
          if processed_urls s > 0
          then (case top_raises w 292 of
                  Some e \<Rightarrow> Some e
                | None \<Rightarrow>
                    if end_time w - start_time w = 0 then Some ZeroDivisionError
                    else top_raises w 294)
          else None)"

text \<open>
  \<^verbatim>\<open>asyncio.gather\<close> over the tasks (line 277), task \<open>i\<close> meeting the behaviour \<open>env i\<close>, with
  the tasks run one after the other in the order of the list: the first exception that
  leaves a task leaves \<^verbatim>\<open>gather\<close>.
\<close>

datatype 'a outcome = Returned 'a | Raised exn | Hangs

fun gather ::
  "int \<Rightarrow> (nat \<Rightarrow> behaviour) \<Rightarrow> nat \<Rightarrow> string list \<Rightarrow> crawl_state \<Rightarrow> exn option \<times> crawl_state" where
  "gather max_retries env i [] s = (None, s)"
| "gather max_retries env i (url # urls) s =
     (case process_url max_retries url (env i) s of
        (None, s') \<Rightarrow> gather max_retries env (Suc i) urls s'
      | (Some e, s') \<Rightarrow> (Some e, s'))"

text \<open>
  \<^verbatim>\<open>finally: await crawler.close()\<close> (line 305): it runs when the body returns or raises,
  and what it raises replaces the outcome of the body.
\<close>

definition finally_close :: "run \<Rightarrow> 'a outcome \<Rightarrow> 'a outcome" where
  "finally_close w out =
     (case out of
        Hangs \<Rightarrow> Hangs
      | _ \<Rightarrow> (case top_raises w 305 of Some e \<Rightarrow> Raised e | None \<Rightarrow> out))"

text \<open>
  \<^verbatim>\<open>crawl_parallel\<close> (lines 201 to 305). \<^verbatim>\<open>asyncio.Semaphore\<close> raises \<^verbatim>\<open>ValueError\<close> on a
  negative value; with the value 0 no task ever passes the semaphore and \<^verbatim>\<open>gather\<close> never
  returns. The statistics returned are the final state (the times are the readings of
  the clock).
\<close>

definition crawl_parallel ::
  "run \<Rightarrow> (nat \<Rightarrow> behaviour) \<Rightarrow> string list \<Rightarrow> int \<Rightarrow> int \<Rightarrow> crawl_state outcome" where
  "crawl_parallel w env urls max_concurrent max_retries =
     (case first_raise (top_raises w) [204, 208, 218] of
        Some e \<Rightarrow> Raised e
      | None \<Rightarrow>
          finally_close w
            (if max_concurrent < 0 then Raised ValueError
             else if max_concurrent = 0 \<and> urls \<noteq> [] then Hangs
             else (case gather max_retries env 0 urls
                          \<lparr>processed_urls = 0, failed_urls = 0, trace = []\<rparr> of
                     (Some e, s) \<Rightarrow> Raised e
                   | (None, s) \<Rightarrow>
                       (case summary w s of Some e \<Rightarrow> Raised e | None \<Rightarrow> Returned s))))"

text \<open>A run in which no line of \<^verbatim>\<open>crawl_parallel\<close> itself raises.\<close>

definition quiet_run :: "run \<Rightarrow> bool" where
  "quiet_run w = (\<forall>l. top_raises w l = None)"

section \<open>The tasks interleaved\<close>

text \<open>
  The same tasks under every schedule of the event loop. A task waits for the semaphore,
  awaits \<^verbatim>\<open>crawler.arun\<close> in iteration \<open>r\<close>, sleeps after iteration \<open>r\<close>, is done, or was
  left by an exception; it can be suspended only at these \<^verbatim>\<open>await\<close>s, so what lies between
  two of them is one step. \<open>permits\<close> is the value of the semaphore.
\<close>

datatype pc = Waiting | Fetching nat | Sleeping nat | Done | Crashed

record pool =
  permits :: nat
  pcs :: "pc list"
  shared :: crawl_state

text \<open>Inside \<^verbatim>\<open>async with semaphore\<close>.\<close>

fun in_region :: "pc \<Rightarrow> bool" where
  "in_region Waiting = False"
| "in_region (Fetching r) = True"
| "in_region (Sleeping r) = True"
| "in_region Done = False"
| "in_region Crashed = False"

definition in_flight :: "pool \<Rightarrow> nat" where
  "in_flight p = length (filter in_region (pcs p))"

definition finished :: "pool \<Rightarrow> nat" where
  "finished p = length (filter (\<lambda>c. c = Done) (pcs p))"

text \<open>Lines 221 to 226 and the creation of the tasks in line 277.\<close>

definition crawl_init :: "int \<Rightarrow> string list \<Rightarrow> exn + pool" where
  "crawl_init max_concurrent urls =
     (if max_concurrent < 0 then Inl ValueError
      else Inr \<lparr>permits = nat max_concurrent,
                pcs = replicate (length urls) Waiting,
                shared = \<lparr>processed_urls = 0, failed_urls = 0, trace = []\<rparr>\<rparr>)"

text \<open>
  The steps of task \<open>i\<close>: it passes the semaphore and starts its first fetch (\<open>acquire\<close>),
  or finds the loop empty and leaves at once (\<open>pass\<close>); its fetch ends and the rest of the
  iteration runs, up to the \<^verbatim>\<open>return\<close> (\<open>fetched_return\<close>), the sleep (\<open>fetched_retry\<close>),
  the end of the last iteration (\<open>fetched_last\<close>) or an exception that leaves the loop
  (\<open>fetched_raise\<close>); its sleep ends (\<open>woke\<close>). Leaving the \<^verbatim>\<open>async with\<close> block, with or
  without an exception, gives the permit back.
\<close>

inductive step :: "int \<Rightarrow> (nat \<Rightarrow> behaviour) \<Rightarrow> string list \<Rightarrow> pool \<Rightarrow> pool \<Rightarrow> bool"
  for max_retries :: int and env :: "nat \<Rightarrow> behaviour" and urls :: "string list"
where
  acquire:
    "i < length urls \<Longrightarrow> pcs p ! i = Waiting \<Longrightarrow> 0 < permits p \<Longrightarrow> 0 < max_retries \<Longrightarrow>
     step max_retries env urls p
       (p\<lparr>permits := permits p - 1, pcs := (pcs p)[i := Fetching 0]\<rparr>)"
| pass:
    "i < length urls \<Longrightarrow> pcs p ! i = Waiting \<Longrightarrow> 0 < permits p \<Longrightarrow> max_retries \<le> 0 \<Longrightarrow>
     step max_retries env urls p (p\<lparr>pcs := (pcs p)[i := Done]\<rparr>)"
| fetched_return:
    "i < length urls \<Longrightarrow> pcs p ! i = Fetching r \<Longrightarrow>
     attempt max_retries (urls ! i) (env i) r (shared p) = (Return, s') \<Longrightarrow>
     step max_retries env urls p
       (p\<lparr>permits := permits p + 1, pcs := (pcs p)[i := Done], shared := s'\<rparr>)"
| fetched_retry:
    "i < length urls \<Longrightarrow> pcs p ! i = Fetching r \<Longrightarrow>
     attempt max_retries (urls ! i) (env i) r (shared p) = (Next, s') \<Longrightarrow>
     int r < max_retries - 1 \<Longrightarrow>
     step max_retries env urls p (p\<lparr>pcs := (pcs p)[i := Sleeping r], shared := s'\<rparr>)"
| fetched_last:
    "i < length urls \<Longrightarrow> pcs p ! i = Fetching r \<Longrightarrow>
     attempt max_retries (urls ! i) (env i) r (shared p) = (Next, s') \<Longrightarrow>
     \<not> int r < max_retries - 1 \<Longrightarrow>
     step max_retries env urls p
       (p\<lparr>permits := permits p + 1, pcs := (pcs p)[i := Done], shared := s'\<rparr>)"
| fetched_raise:
    "i < length urls \<Longrightarrow> pcs p ! i = Fetching r \<Longrightarrow>
     attempt max_retries (urls ! i) (env i) r (shared p) = (Raise e, s') \<Longrightarrow>
     step max_retries env urls p
       (p\<lparr>permits := permits p + 1, pcs := (pcs p)[i := Crashed], shared := s'\<rparr>)"
| woke:
    "i < length urls \<Longrightarrow> pcs p ! i = Sleeping r \<Longrightarrow>
     step max_retries env urls p (p\<lparr>pcs := (pcs p)[i := Fetching (Suc r)]\<rparr>)"

text \<open>What the semaphore keeps: the tasks inside and the permits left add up to \<open>c\<close>.\<close>

definition gate_inv :: "nat \<Rightarrow> nat \<Rightarrow> pool \<Rightarrow> bool" where
  "gate_inv c n p = (length (pcs p) = n \<and> in_flight p + permits p = c)"

text \<open>
  What the counters keep while no store and no print raises: together they count the
  tasks that are done.
\<close>

definition count_inv :: "nat \<Rightarrow> pool \<Rightarrow> bool" where
  "count_inv n p =
     (length (pcs p) = n
      \<and> processed_urls (shared p) + failed_urls (shared p) = finished p)"

section \<open>Reading sitemaps\<close>

text \<open>
  The HTTP layer, the XML parser and the console. \<open>requests_get net u\<close> is what
  \<^verbatim>\<open>requests.get(u)\<close> does (it raises, or returns a response), \<open>fromstring net\<close> what
  \<^verbatim>\<open>ElementTree.fromstring\<close> does with a body (it raises \<^verbatim>\<open>ParseError\<close>, or returns the root
  element), \<open>print_fails net l u\<close> the exception, if any, that the \<^verbatim>\<open>print\<close> of line \<open>l\<close>
  raises while the URL \<open>u\<close> is at hand: the argument of \<^verbatim>\<open>get_urls_from_sitemap\<close> in lines
  134, 137, 146 and 150, the URL of robots.txt in line 183, the directive in line 190, and
  \<^verbatim>\<open>None\<close> in line 196. An element has its tag (with the namespace in braces), its text
  (\<^verbatim>\<open>None\<close> for an empty element) and its children.
\<close>

record response =
  status_code :: nat
  body :: string

datatype element = Element (tag: string) (elem_text: "string option") (children: "element list")

record net =
  requests_get :: "string \<Rightarrow> exn + response"
  fromstring :: "string \<Rightarrow> exn + element"
  print_fails :: "nat \<Rightarrow> string option \<Rightarrow> exn option"

text \<open>\<^verbatim>\<open>response.raise_for_status()\<close>: an error for the statuses 400 to 599.\<close>

definition raise_for_status :: "response \<Rightarrow> exn + unit" where
  "raise_for_status r =
     (if 400 \<le> status_code r \<and> status_code r < 600 then Inl (HTTPError (status_code r))
      else Inr ())"

text \<open>
  \<^verbatim>\<open>root.findall(".//ns:loc", namespace)\<close>: the elements below the root, in document order,
  whose tag is \<open>loc\<close> in the sitemap namespace.
\<close>

fun descendants :: "element \<Rightarrow> element list" where
  "descendants (Element t x cs) = concat (map (\<lambda>c. c # descendants c) cs)"

definition findall_loc :: "element \<Rightarrow> element list" where
  "findall_loc root =
     filter (\<lambda>e. tag e = ''{http://www.sitemaps.org/schemas/sitemap/0.9}loc'') (descendants root)"

definition endswith :: "string \<Rightarrow> string \<Rightarrow> bool" where
  "endswith s p = suffix p s"

text \<open>
  Lines 120 to 123: the request, the status check and the parse, each of which may raise.
  A \<^verbatim>\<open>loc\<close> without text gives the URL \<^verbatim>\<open>None\<close>, which \<^verbatim>\<open>requests.get\<close> refuses.
\<close>

definition fetch_root :: "net \<Rightarrow> string option \<Rightarrow> exn + element" where
  "fetch_root net sitemap_url =
     (case sitemap_url of
        None \<Rightarrow> Inl MissingSchema
      | Some u \<Rightarrow>
          (case requests_get net u of
             Inl e \<Rightarrow> Inl e
           | Inr response \<Rightarrow>
               (case raise_for_status response of
                  Inl e \<Rightarrow> Inl e
                | Inr _ \<Rightarrow> fromstring net (body response))))"

text \<open>
  What a call of \<^verbatim>\<open>get_urls_from_sitemap\<close> gives: the list it returns or the exception that
  leaves it, and the URLs it has passed to \<^verbatim>\<open>requests.get\<close>, in the order of the calls.
\<close>

type_synonym resolution = "(exn + string option list) \<times> string option list"

text \<open>
  The loop of lines 140 to 142 over the sitemaps of an index, \<open>get\<close> being the recursive
  call: an exception that leaves a call leaves the loop, and the sitemaps after it are not
  read.
\<close>

fun extend_all :: "(string option \<Rightarrow> resolution) \<Rightarrow> string option list \<Rightarrow> resolution" where
  "extend_all get [] = (Inr [], [])"
| "extend_all get (sub_sitemap_url # rest) =
     (case get sub_sitemap_url of
        (Inl e, log) \<Rightarrow> (Inl e, log)
      | (Inr sub_urls, log) \<Rightarrow>
          (case extend_all get rest of
             (Inl e, log') \<Rightarrow> (Inl e, log @ log')
           | (Inr urls, log') \<Rightarrow> (Inr (sub_urls @ urls), log @ log')))"

text \<open>
  The body of the \<^verbatim>\<open>try\<close> (lines 113 to 148). The prints of lines 134, 137 and 146 stand
  inside it.
\<close>

definition try_sitemap :: "(string option \<Rightarrow> resolution) \<Rightarrow> net \<Rightarrow> string option \<Rightarrow> resolution" where
  "try_sitemap get net sitemap_url =
     (case fetch_root net sitemap_url of
        Inl e \<Rightarrow> (Inl e, [sitemap_url])
      | Inr root \<Rightarrow>
          if endswith (tag root) ''sitemapindex''
          then (case print_fails net 134 sitemap_url of
                  Some e \<Rightarrow> (Inl e, [sitemap_url])
                | None \<Rightarrow>
                    (let sitemap_urls = map elem_text (findall_loc root)
                     in case print_fails net 137 sitemap_url of
                          Some e \<Rightarrow> (Inl e, [sitemap_url])
                        | None \<Rightarrow>
                            (case extend_all get sitemap_urls of
                               (result, log) \<Rightarrow> (result, sitemap_url # log))))
          else (let urls = map elem_text (findall_loc root)
                in case print_fails net 146 sitemap_url of
                     Some e \<Rightarrow> (Inl e, [sitemap_url])
                   | None \<Rightarrow> (Inr urls, [sitemap_url])))"

text \<open>
  The handler (lines 149 to 151): it runs for the subclasses of \<^verbatim>\<open>Exception\<close>, and its print
  stands outside the \<^verbatim>\<open>try\<close>, so an exception of the print leaves the function.
\<close>

definition except_sitemap :: "net \<Rightarrow> string option \<Rightarrow> exn \<Rightarrow> exn + string option list" where
  "except_sitemap net sitemap_url e =
     (if is_exception e
      then (case print_fails net 150 sitemap_url of Some e' \<Rightarrow> Inl e' | None \<Rightarrow> Inr [])
      else Inl e)"

text \<open>
  \<^verbatim>\<open>get_urls_from_sitemap\<close> (lines 110 to 151). The recursion of the source has no bound
  of its own; Python bounds it: \<open>depth\<close> is the number of nested calls that still fit
  under the interpreter's recursion limit. In a call that does not fit, \<^verbatim>\<open>RecursionError\<close>
  is raised inside the \<^verbatim>\<open>try\<close> before a request is sent, and the handler runs as for every
  other exception.
\<close>

primrec get_urls_from_sitemap :: "nat \<Rightarrow> net \<Rightarrow> string option \<Rightarrow> resolution" where
  "get_urls_from_sitemap 0 net sitemap_url = (except_sitemap net sitemap_url RecursionError, [])"
| "get_urls_from_sitemap (Suc depth) net sitemap_url =
     (case try_sitemap (get_urls_from_sitemap depth net) net sitemap_url of
        (Inl e, log) \<Rightarrow> (except_sitemap net sitemap_url e, log)
      | (Inr urls, log) \<Rightarrow> (Inr urls, log))"

text \<open>
  The list a call returned (nothing where an exception left it). A net is quiet when no
  print raises, and tame when the HTTP layer and the parser raise subclasses of
  \<^verbatim>\<open>Exception\<close> only.
\<close>

definition returned :: "resolution \<Rightarrow> string option list" where
  "returned r = (case fst r of Inl e \<Rightarrow> [] | Inr urls \<Rightarrow> urls)"

definition quiet_net :: "net \<Rightarrow> bool" where
  "quiet_net net = (\<forall>l u. print_fails net l u = None)"

definition tame :: "net \<Rightarrow> bool" where
  "tame net =
     ((\<forall>u e. requests_get net u = Inl e \<longrightarrow> is_exception e)
      \<and> (\<forall>b e. fromstring net b = Inl e \<longrightarrow> is_exception e))"

section \<open>Finding the sitemap of a site\<close>

text \<open>
  \<^verbatim>\<open>s.split(sep)\<close> for a separator of one character, the characters that \<^verbatim>\<open>s.strip()\<close>
  removes (those with \<^verbatim>\<open>isspace\<close>), and \<^verbatim>\<open>line.split(':', 1)[1]\<close>, which raises
  \<^verbatim>\<open>IndexError\<close> on a line without a colon.
\<close>

fun split :: "string \<Rightarrow> char \<Rightarrow> string list" where
  "split [] sep = [[]]"
| "split (c # cs) sep =
     (if c = sep then [] # split cs sep
      else (case split cs sep of [] \<Rightarrow> [[c]] | w # ws \<Rightarrow> (c # w) # ws))"

definition whitespace :: string where
  "whitespace = map char_of [9, 10, 11, 12, 13, 28, 29, 30, 31, 32, 133, 160 :: nat]"

definition after_first_colon :: "string \<Rightarrow> exn + string" where
  "after_first_colon line =
     (case dropWhile (\<lambda>c. c \<noteq> CHR '':'') line of
        [] \<Rightarrow> Inl IndexError
      | c # rest \<Rightarrow> Inr rest)"

text \<open>
  How the \<^verbatim>\<open>try\<close> of lines 177 to 194 ends: the exception that left it, if any, the two
  variables \<^verbatim>\<open>sitemap_url\<close> and \<^verbatim>\<open>urls\<close> as it leaves them, and the URLs passed to
  \<^verbatim>\<open>requests.get\<close> meanwhile.
\<close>

type_synonym scan = "(exn option \<times> string \<times> string option list) \<times> string option list"

text \<open>
  The loop of lines 187 to 194 over the lines of robots.txt. The print of line 190 and the
  call of line 191 stand inside the \<^verbatim>\<open>try\<close>: an exception of either leaves the loop. The
  \<^verbatim>\<open>break\<close> stands under \<^verbatim>\<open>if urls\<close>: the loop goes on after a directive whose sitemap
  gives no URL.
\<close>

fun scan_robots :: "nat \<Rightarrow> net \<Rightarrow> string list \<Rightarrow> string \<Rightarrow> string option list \<Rightarrow> scan" where
  "scan_robots depth net [] sitemap_url urls = ((None, sitemap_url, urls), [])"
| "scan_robots depth net (line # lines) sitemap_url urls =
     (if startswith (lower line) ''sitemap:''
      then (case after_first_colon line of
              Inl e \<Rightarrow> ((Some e, sitemap_url, urls), [])
            | Inr rest \<Rightarrow>
                (let alt_sitemap_url = strip rest whitespace
                 in case print_fails net 190 (Some alt_sitemap_url) of
                      Some e \<Rightarrow> ((Some e, sitemap_url, urls), [])
                    | None \<Rightarrow>
                        (case get_urls_from_sitemap depth net (Some alt_sitemap_url) of
                           (Inl e, log) \<Rightarrow> ((Some e, sitemap_url, urls), log)
                         | (Inr urls, log) \<Rightarrow>
                             if urls \<noteq> [] then ((None, alt_sitemap_url, urls), log)
                             else (case scan_robots depth net lines sitemap_url urls of
                                     (ending, log') \<Rightarrow> (ending, log @ log')))))
      else scan_robots depth net lines sitemap_url urls)"

text \<open>The body of the \<^verbatim>\<open>try\<close> (lines 178 to 194).\<close>

definition try_robots ::
  "nat \<Rightarrow> net \<Rightarrow> (string \<Rightarrow> exn + parse_result) \<Rightarrow> string \<Rightarrow> string \<Rightarrow> string option list \<Rightarrow> scan" where
  "try_robots depth net urlparse base_url sitemap_url urls =
     (case urlparse base_url of
        Inl e \<Rightarrow> ((Some e, sitemap_url, urls), [])
      | Inr parsed_url \<Rightarrow>
          (let domain = scheme parsed_url @ ''://'' @ netloc parsed_url;
               robots_url = domain @ ''/robots.txt''
           in case print_fails net 183 (Some robots_url) of
                Some e \<Rightarrow> ((Some e, sitemap_url, urls), [])
              | None \<Rightarrow>
                  (case requests_get net robots_url of
                     Inl e \<Rightarrow> ((Some e, sitemap_url, urls), [Some robots_url])
                   | Inr response \<Rightarrow>
                       if status_code response = 200
                       then (case scan_robots depth net (split (body response) (CHR 0x0A))
                                    sitemap_url urls of
                               (ending, log) \<Rightarrow> (ending, Some robots_url # log))
                       else ((None, sitemap_url, urls), [Some robots_url]))))"

text \<open>
  \<^verbatim>\<open>check_and_get_sitemap_urls\<close> (lines 154 to 198): the pair it returns or the exception
  that leaves it, and the URLs passed to \<^verbatim>\<open>requests.get\<close>. The call of line 172 stands
  outside the \<^verbatim>\<open>try\<close>; the handler of line 195 runs for the subclasses of \<^verbatim>\<open>Exception\<close>,
  and an exception of its print leaves the function.
\<close>

definition check_and_get_sitemap_urls ::
  "nat \<Rightarrow> net \<Rightarrow> (string \<Rightarrow> exn + parse_result) \<Rightarrow> string
     \<Rightarrow> (exn + string \<times> string option list) \<times> string option list" where
  "check_and_get_sitemap_urls depth net urlparse url =
     (let base_url = rstrip url ''/'';
          base_url = (if \<not> (startswith base_url ''http://'' \<or> startswith base_url ''https://'')
                      then ''https://'' @ base_url else base_url);
          sitemap_url = format_sitemap_url base_url
      in case get_urls_from_sitemap depth net (Some sitemap_url) of
           (Inl e, log) \<Rightarrow> (Inl e, log)
         | (Inr urls, log) \<Rightarrow>
             if urls = []
             then (case try_robots depth net urlparse base_url sitemap_url urls of
                     ((None, sitemap_url, urls), log') \<Rightarrow> (Inr (sitemap_url, urls), log @ log')
                   | ((Some e, sitemap_url, urls), log') \<Rightarrow>
                       if is_exception e
                       then (case print_fails net 196 None of
                               Some e' \<Rightarrow> (Inl e', log @ log')
                             | None \<Rightarrow> (Inr (sitemap_url, urls), log @ log'))
                       else (Inl e, log @ log'))
             else (Inr (sitemap_url, urls), log))"

text \<open>
  The sitemap directives of a robots.txt, as the loop reads them: of every line that
  starts with \<open>sitemap:\<close> in any letter case, what follows the first colon, stripped.
\<close>

definition robots_directives :: "string \<Rightarrow> string list" where
  "robots_directives robots =
     map (\<lambda>line. strip (drop 8 line) whitespace)
       (filter (\<lambda>line. startswith (lower line) ''sitemap:'') (split robots (CHR 0x0A)))"

section \<open>A small web\<close>

text \<open>
  A site for the examples: an index of three sitemaps, the first answering 404, the second
  with two pages, the third with one page behind the status 300; a site \<open>b.test\<close> without a
  sitemap of its own, whose robots.txt names the three sitemaps. No print raises in
  \<open>small_web\<close>; in the three nets after it one print does: that of line 134, that of line
  150 for the first sitemap, and that of line 190 for the first directive.
\<close>

definition loc :: "string \<Rightarrow> element" where
  "loc u = Element ''{http://www.sitemaps.org/schemas/sitemap/0.9}loc'' (Some u) []"

definition small_index :: element where
  "small_index =
     Element ''{http://www.sitemaps.org/schemas/sitemap/0.9}sitemapindex'' None
       [Element ''{http://www.sitemaps.org/schemas/sitemap/0.9}sitemap'' None
          [loc ''https://a.test/1.xml''],
        Element ''{http://www.sitemaps.org/schemas/sitemap/0.9}sitemap'' None
          [loc ''https://a.test/2.xml''],
        Element ''{http://www.sitemaps.org/schemas/sitemap/0.9}sitemap'' None
          [loc ''https://a.test/3.xml'']]"

definition small_urlset_two :: element where
  "small_urlset_two =
     Element ''{http://www.sitemaps.org/schemas/sitemap/0.9}urlset'' None
       [Element ''{http://www.sitemaps.org/schemas/sitemap/0.9}url'' None
          [loc ''https://a.test/p''],
        Element ''{http://www.sitemaps.org/schemas/sitemap/0.9}url'' None
          [loc ''https://a.test/q'']]"

definition small_urlset_one :: element where
  "small_urlset_one =
     Element ''{http://www.sitemaps.org/schemas/sitemap/0.9}urlset'' None
       [Element ''{http://www.sitemaps.org/schemas/sitemap/0.9}url'' None
          [loc ''https://a.test/r'']]"

definition small_robots :: string where
  "small_robots =
     ''User-agent: *'' @ [CHR 0x0A] @ ''Sitemap: https://a.test/1.xml''
       @ [CHR 0x0A] @ ''SITEMAP:https://a.test/2.xml ''
       @ [CHR 0x0A] @ ''sitemap: https://a.test/3.xml''"

definition small_web :: net where
  "small_web =
     \<lparr>requests_get = (\<lambda>u.
         if u = ''https://a.test/sitemap.xml'' then Inr \<lparr>status_code = 200, body = ''index''\<rparr>
         else if u = ''https://a.test/1.xml'' then Inr \<lparr>status_code = 404, body = ''two''\<rparr>
         else if u = ''https://a.test/2.xml'' then Inr \<lparr>status_code = 200, body = ''two''\<rparr>
         else if u = ''https://a.test/3.xml'' then Inr \<lparr>status_code = 300, body = ''one''\<rparr>
         else if u = ''https://b.test/robots.txt''
           then Inr \<lparr>status_code = 200, body = small_robots\<rparr>
         else Inl ConnectionError),
       fromstring = (\<lambda>b.
         if b = ''index'' then Inr small_index
         else if b = ''two'' then Inr small_urlset_two
         else if b = ''one'' then Inr small_urlset_one
         else Inl ParseError),
       print_fails = (\<lambda>l u. None)\<rparr>"

definition web_print_134 :: net where
  "web_print_134 =
     small_web\<lparr>print_fails := (\<lambda>l u. if l = 134 then Some UnicodeEncodeError else None)\<rparr>"

definition web_print_150 :: net where
  "web_print_150 =
     small_web\<lparr>print_fails := (\<lambda>l u.
        if l = 150 \<and> u = Some ''https://a.test/1.xml'' then Some UnicodeEncodeError else None)\<rparr>"

definition web_print_190 :: net where
  "web_print_190 =
     small_web\<lparr>print_fails := (\<lambda>l u.
        if l = 190 \<and> u = Some ''https://a.test/1.xml'' then Some UnicodeEncodeError else None)\<rparr>"

definition small_urlparse :: "string \<Rightarrow> exn + parse_result" where
  "small_urlparse u =
     (if u = ''https://b.test'' then Inr \<lparr>scheme = ''https'', netloc = ''b.test'', path = []\<rparr>
      else Inl ValueError)"

chapter \<open>Properties\<close>

section \<open>Strings\<close>

lemma rstrip_decompose: "\<exists>n. s = rstrip s [c] @ replicate n c"
proof -
  let ?P = "\<lambda>x. x \<in> set [c]"
  have "rev s = takeWhile ?P (rev s) @ dropWhile ?P (rev s)" by simp
  then have "s = rev (dropWhile ?P (rev s)) @ rev (takeWhile ?P (rev s))"
    by (metis rev_append rev_rev_ident)
  moreover have "\<forall>x \<in> set (rev (takeWhile ?P (rev s))). x = c"
    by (auto dest: set_takeWhileD)
  then have "rev (takeWhile ?P (rev s)) = replicate (length (rev (takeWhile ?P (rev s)))) c"
    by (metis replicate_eqI)
  ultimately show ?thesis unfolding rstrip_def by metis
qed

lemma rstrip_no_trailing: "\<not> suffix [c] (rstrip s [c])"
proof
  assume "suffix [c] (rstrip s [c])"
  then obtain zs where "rstrip s [c] = zs @ [c]" by (auto simp: suffix_def)
  then have "dropWhile (\<lambda>x. x \<in> set [c]) (rev s) = c # rev zs"
    unfolding rstrip_def
    by (metis rev_rev_ident rev_append rev_singleton_conv append_Cons append_Nil)
  then show False
    by (metis (mono_tags, lifting) hd_dropWhile list.sel(1) list.set_intros(1) list.simps(3))
qed

lemma rstrip_fixed: "\<not> suffix [c] s \<Longrightarrow> rstrip s [c] = s"
proof (cases "rev s")
  case Nil
  then show ?thesis by (simp add: rstrip_def)
next
  case (Cons x xs)
  assume "\<not> suffix [c] s"
  with Cons have "x \<noteq> c" by (auto simp: suffix_def)
  with Cons show ?thesis by (simp add: rstrip_def)
qed

lemma sublist_prefix_needle: "sublist (xs @ ys) zs \<Longrightarrow> sublist xs zs"
  by (auto simp: sublist_def)

lemma lower_append: "lower (xs @ ys) = lower xs @ lower ys"
  by (simp add: lower_def)

section \<open>Sitemap URL formatting\<close>

text \<open>
  The three needles of line 103 all begin with \<open>sitemap\<close>, so the test is the test for
  that one substring.
\<close>

lemma any_sitemap_needle:
  "list_ex (\<lambda>x. sublist x s) [''sitemap'', ''sitemap.xml'', ''sitemap_index.xml'']
     = sublist ''sitemap'' s"
proof -
  have a: "sublist ''sitemap.xml'' s \<Longrightarrow> sublist ''sitemap'' s"
    using sublist_prefix_needle [of "''sitemap''" "''.xml''" s] by simp
  have b: "sublist ''sitemap_index.xml'' s \<Longrightarrow> sublist ''sitemap'' s"
    using sublist_prefix_needle [of "''sitemap''" "''_index.xml''" s] by simp
  show ?thesis using a b by auto
qed

lemma format_sitemap_url_unfold:
  "format_sitemap_url url =
     (let stripped = rstrip url ''/'';
          normalized = (if startswith stripped ''http://'' \<or> startswith stripped ''https://''
                        then stripped else ''https://'' @ stripped)
      in if sublist ''sitemap'' (lower normalized) then normalized
         else normalized @ ''/sitemap.xml'')"
  unfolding format_sitemap_url_def Let_def any_sitemap_needle by simp

lemma startswith_rstrip: "startswith (rstrip url chars) p \<Longrightarrow> startswith url p"
proof -
  assume h: "startswith (rstrip url chars) p"
  let ?P = "\<lambda>c. c \<in> set chars"
  have "rev url = takeWhile ?P (rev url) @ dropWhile ?P (rev url)" by simp
  then have "url = rstrip url chars @ rev (takeWhile ?P (rev url))"
    unfolding rstrip_def by (metis rev_append rev_rev_ident)
  then have "prefix (rstrip url chars) url" by (metis prefixI)
  with h show ?thesis unfolding startswith_def by (metis prefix_order.trans)
qed

text \<open>
  Claim C8. For every string \<open>url\<close>: \<open>stripped\<close> is \<open>url\<close> without its trailing slashes
  (\<open>url\<close> is \<open>stripped\<close> followed by slashes only, and \<open>stripped\<close> ends in none);
  \<open>normalized\<close> is \<open>stripped\<close> with \<open>https://\<close> in front when \<open>stripped\<close> starts with
  neither \<open>http://\<close> nor \<open>https://\<close> (which is so whenever \<open>url\<close> itself starts with
  neither); the function returns \<open>normalized\<close> unchanged when its lower-cased form
  contains \<open>sitemap\<close> anywhere, and \<open>normalized\<close> followed by \<open>/sitemap.xml\<close> otherwise.
\<close>

theorem format_sitemap_url_spec:
  "let stripped = rstrip url ''/'';
       normalized = (if startswith stripped ''http://'' \<or> startswith stripped ''https://''
                     then stripped else ''https://'' @ stripped)
   in (\<exists>n. url = stripped @ replicate n CHR ''/'')
      \<and> \<not> suffix ''/'' stripped
      \<and> (\<not> startswith url ''http://'' \<and> \<not> startswith url ''https://''
           \<longrightarrow> normalized = ''https://'' @ stripped)
      \<and> format_sitemap_url url =
          (if sublist ''sitemap'' (lower normalized) then normalized
           else normalized @ ''/sitemap.xml'')"
proof -
  have 1: "\<exists>n. url = rstrip url ''/'' @ replicate n CHR ''/''"
    by (rule rstrip_decompose)
  have 2: "\<not> suffix ''/'' (rstrip url ''/'')"
    by (rule rstrip_no_trailing)
  have 3: "\<not> startswith url p \<Longrightarrow> \<not> startswith (rstrip url ''/'') p" for p
    using startswith_rstrip by blast
  show ?thesis
    unfolding Let_def using 1 2 3 format_sitemap_url_unfold [of url, unfolded Let_def]
    by simp
qed

theorem format_sitemap_url_spec_witness:
  "format_sitemap_url ''example.com//'' = ''https://example.com/sitemap.xml''
   \<and> format_sitemap_url ''http://a.test/SiteMap_Index.xml/'' = ''http://a.test/SiteMap_Index.xml''"
proof -
  have a: "rstrip ''example.com//'' ''/'' = ''example.com''" by code_simp
  have b: "\<not> startswith ''example.com'' ''http://''" by code_simp
  have c: "\<not> startswith ''example.com'' ''https://''" by code_simp
  have d: "\<not> sublist ''sitemap'' (lower ''https://example.com'')" by code_simp
  have e: "rstrip ''http://a.test/SiteMap_Index.xml/'' ''/'' = ''http://a.test/SiteMap_Index.xml''"
    by code_simp
  have f: "startswith ''http://a.test/SiteMap_Index.xml'' ''http://''" by code_simp
  have g: "sublist ''sitemap'' (lower ''http://a.test/SiteMap_Index.xml'')" by code_simp
  from format_sitemap_url_spec [of "''example.com//''"] a b c d
  have "format_sitemap_url ''example.com//'' = ''https://example.com/sitemap.xml''"
    by (simp add: Let_def)
  moreover from format_sitemap_url_spec [of "''http://a.test/SiteMap_Index.xml/''"] e f g
  have "format_sitemap_url ''http://a.test/SiteMap_Index.xml/'' = ''http://a.test/SiteMap_Index.xml''"
    by (simp add: Let_def)
  ultimately show ?thesis by simp
qed

text \<open>
  The scheme test reads the stripped string: an input that is nothing but a scheme loses
  its slashes first and is then given a second scheme.
\<close>

lemma format_sitemap_url_bare_scheme:
  "format_sitemap_url ''http://'' = ''https://http:/sitemap.xml''"
  by code_simp

lemma lower_sitemap_xml: "lower ''/sitemap.xml'' = ''/sitemap.xml''"
  by code_simp

lemma https_no_sitemap: "\<not> sublist ''sitemap'' (lower ''https://'')"
  by code_simp

lemma format_sitemap_url_shape:
  "(startswith (format_sitemap_url url) ''http://'' \<or> startswith (format_sitemap_url url) ''https://'')
   \<and> \<not> suffix ''/'' (format_sitemap_url url)
   \<and> sublist ''sitemap'' (lower (format_sitemap_url url))"
proof -
  define s where "s = rstrip url ''/''"
  define n where
    "n = (if startswith s ''http://'' \<or> startswith s ''https://'' then s else ''https://'' @ s)"
  have out: "format_sitemap_url url =
      (if sublist ''sitemap'' (lower n) then n else n @ ''/sitemap.xml'')"
    unfolding format_sitemap_url_unfold [of url] Let_def s_def n_def ..
  have scheme_n: "startswith n ''http://'' \<or> startswith n ''https://''"
    by (auto simp: n_def startswith_def)
  have s_tail: "\<not> suffix ''/'' s"
    unfolding s_def by (rule rstrip_no_trailing)
  have n_tail: "\<not> suffix ''/'' n" if "sublist ''sitemap'' (lower n)"
  proof (cases "startswith s ''http://'' \<or> startswith s ''https://''")
    case True
    then show ?thesis using s_tail by (simp add: n_def)
  next
    case False
    then have n: "n = ''https://'' @ s" by (simp add: n_def)
    have "s \<noteq> []" using that https_no_sitemap n by auto
    then have "suffix ''/'' (''https://'' @ s) = suffix ''/'' s"
      by (cases s rule: rev_cases) (auto simp: suffix_def)
    with n s_tail show ?thesis by simp
  qed
  show ?thesis
  proof (cases "sublist ''sitemap'' (lower n)")
    case True
    with out scheme_n n_tail show ?thesis by simp
  next
    case False
    have o: "format_sitemap_url url = n @ ''/sitemap.xml''" using out False by simp
    have 1: "startswith (n @ ''/sitemap.xml'') ''http://''
             \<or> startswith (n @ ''/sitemap.xml'') ''https://''"
      using scheme_n by (auto simp: startswith_def intro: prefix_prefix)
    have 2: "\<not> suffix ''/'' (n @ ''/sitemap.xml'')"
      by (simp add: suffix_def)
    have "lower (n @ ''/sitemap.xml'') = (lower n @ ''/'') @ ''sitemap'' @ ''.xml''"
      by (simp add: lower_append lower_sitemap_xml)
    then have 3: "sublist ''sitemap'' (lower (n @ ''/sitemap.xml''))"
      using sublist_appendI [of "''sitemap''" "lower n @ ''/''" "''.xml''"] by simp
    from o 1 2 3 show ?thesis by simp
  qed
qed

text \<open>
  Claim C9. \<open>format_sitemap_url\<close> is idempotent, because every output starts with a
  scheme, ends in no slash and contains \<open>sitemap\<close> in its lower-cased form.
\<close>

theorem format_sitemap_url_idempotent:
  "format_sitemap_url (format_sitemap_url url) = format_sitemap_url url
   \<and> (startswith (format_sitemap_url url) ''http://''
        \<or> startswith (format_sitemap_url url) ''https://'')
   \<and> \<not> suffix ''/'' (format_sitemap_url url)
   \<and> sublist ''sitemap'' (lower (format_sitemap_url url))"
proof -
  let ?out = "format_sitemap_url url"
  from format_sitemap_url_shape [of url]
  have a: "startswith ?out ''http://'' \<or> startswith ?out ''https://''"
    and b: "\<not> suffix ''/'' ?out" and c: "sublist ''sitemap'' (lower ?out)" by blast+
  from b have "rstrip ?out ''/'' = ?out" by (rule rstrip_fixed)
  with a c have "format_sitemap_url ?out = ?out"
    by (simp add: format_sitemap_url_unfold [of ?out] Let_def)
  with a b c show ?thesis by simp
qed

section \<open>Saving a page\<close>

lemma length_decimal: "n < 10 ^ k \<Longrightarrow> 0 < k \<Longrightarrow> length (decimal n) \<le> k"
proof (induction k arbitrary: n)
  case 0
  then show ?case by simp
next
  case (Suc k)
  show ?case
  proof (cases "n < 10")
    case True
    then show ?thesis by (simp add: decimal.simps [of n])
  next
    case False
    then have "0 < k" using Suc.prems by (cases k) auto
    moreover have "n div 10 < 10 ^ k" using Suc.prems by (simp add: less_mult_imp_div_less mult.commute)
    ultimately have "length (decimal (n div 10)) \<le> k" by (rule Suc.IH [rotated])
    with False show ?thesis by (simp add: decimal.simps [of n])
  qed
qed

lemma length_zero_pad: "n < 10 ^ k \<Longrightarrow> 0 < k \<Longrightarrow> length (zero_pad k n) = k"
  using length_decimal [of n k] by (simp add: zero_pad_def)

lemma length_strftime_stamp: "valid_datetime t \<Longrightarrow> length (strftime_stamp t) = 15"
proof -
  assume v: "valid_datetime t"
  have four: "(10::nat) ^ 4 = 10000" and two: "(10::nat) ^ 2 = 100" by simp_all
  from v have "year t < 10 ^ 4" unfolding four valid_datetime_def by linarith
  then have y: "length (zero_pad 4 (year t)) = 4" by (rule length_zero_pad) simp
  from v have "month t < 10 ^ 2" unfolding two valid_datetime_def by linarith
  then have m: "length (zero_pad 2 (month t)) = 2" by (rule length_zero_pad) simp
  from v have "day t < 10 ^ 2" unfolding two valid_datetime_def by linarith
  then have d: "length (zero_pad 2 (day t)) = 2" by (rule length_zero_pad) simp
  from v have "hour t < 10 ^ 2" unfolding two valid_datetime_def by linarith
  then have h: "length (zero_pad 2 (hour t)) = 2" by (rule length_zero_pad) simp
  from v have "minute t < 10 ^ 2" unfolding two valid_datetime_def by linarith
  then have mi: "length (zero_pad 2 (minute t)) = 2" by (rule length_zero_pad) simp
  from v have "second t < 10 ^ 2" unfolding two valid_datetime_def by linarith
  then have s: "length (zero_pad 2 (second t)) = 2" by (rule length_zero_pad) simp
  show ?thesis by (simp add: strftime_stamp_def y m d h mi s)
qed

lemma re_sub_invalid_chars:
  "\<forall>c \<in> set (re_sub_invalid word_char s). word_char c \<or> c = CHR ''-'' \<or> c = CHR ''_'' \<or> c = CHR ''.''"
  by (auto simp: re_sub_invalid_def)

text \<open>
  Claim C10. When \<^verbatim>\<open>urlparse\<close> returns and the clock shows a year of four digits, the
  file name is a base, an underscore, the time stamp and \<open>.md\<close>: every character of the
  base is a word character, \<open>-\<close>, \<open>_\<close> or \<open>.\<close>; the base has at most 200 characters; the
  time stamp has 15; so the name has 19 characters more than the base, at most 219, and
  ends in \<open>.md\<close>.
\<close>

theorem save_markdown_file_filename_shape:
  assumes "valid_datetime now" and "urlparse url = Inr parsed_url"
  shows "let base = take 200 (re_sub_invalid word_char
                       (netloc parsed_url @ ''_'' @ strip (path parsed_url) ''/''));
             name = base @ ''_'' @ strftime_stamp now @ ''.md''
         in save_markdown_file_filename word_char urlparse now url = Inr name
            \<and> (\<forall>c \<in> set base. word_char c \<or> c = CHR ''-'' \<or> c = CHR ''_'' \<or> c = CHR ''.'')
            \<and> length base \<le> 200
            \<and> length (strftime_stamp now) = 15
            \<and> length name = length base + 19
            \<and> length name \<le> 219
            \<and> suffix ''.md'' name"
proof -
  define raw where
    "raw = re_sub_invalid word_char (netloc parsed_url @ ''_'' @ strip (path parsed_url) ''/'')"
  define stamp where "stamp = strftime_stamp now"
  have t: "(if length raw > 200 then take 200 raw else raw) = take 200 raw" by simp
  have 1: "save_markdown_file_filename word_char urlparse now url
             = Inr (take 200 raw @ ''_'' @ stamp @ ''.md'')"
    unfolding save_markdown_file_filename_def Let_def assms(2) sum.case raw_def [symmetric]
      stamp_def [symmetric] t ..
  have "\<forall>c \<in> set raw. word_char c \<or> c = CHR ''-'' \<or> c = CHR ''_'' \<or> c = CHR ''.''"
    unfolding raw_def by (rule re_sub_invalid_chars)
  then have 2: "\<forall>c \<in> set (take 200 raw).
      word_char c \<or> c = CHR ''-'' \<or> c = CHR ''_'' \<or> c = CHR ''.''"
    by (meson in_set_takeD)
  have 3: "length stamp = 15"
    unfolding stamp_def using assms(1) by (rule length_strftime_stamp)
  have 4: "length (take 200 raw) \<le> 200" by simp
  have 5: "length (take 200 raw @ ''_'' @ stamp @ ''.md'') = length (take 200 raw) + 19"
    using 3 by simp
  have 6: "length (take 200 raw @ ''_'' @ stamp @ ''.md'') \<le> 219"
    unfolding 5 using 4 by linarith
  have 7: "suffix ''.md'' (take 200 raw @ ''_'' @ stamp @ ''.md'')"
    unfolding suffix_def by (rule exI [of _ "take 200 raw @ ''_'' @ stamp"]) simp
  show ?thesis
    unfolding Let_def raw_def [symmetric] stamp_def [symmetric]
    using 1 2 3 4 5 6 7 by (intro conjI)
qed

theorem save_markdown_file_filename_shape_witness:
  "valid_datetime \<lparr>year = 2024, month = 1, day = 31, hour = 23, minute = 5, second = 9\<rparr>
   \<and> save_markdown_file_filename (\<lambda>c. c \<in> set ''abcdefghijklmnopqrstuvwxyz'')
        (\<lambda>u. Inr \<lparr>scheme = ''https'', netloc = ''example.com'', path = ''/docs/a b/''\<rparr>)
        \<lparr>year = 2024, month = 1, day = 31, hour = 23, minute = 5, second = 9\<rparr>
        ''https://example.com/docs/a b/''
      = Inr ''example.com_docs_a_b_20240131_230509.md''
   \<and> length ''example.com_docs_a_b_20240131_230509.md'' \<le> 219"
proof -
  let ?now = "\<lparr>year = 2024, month = 1, day = 31, hour = 23, minute = 5, second = 9\<rparr>"
  let ?p = "\<lparr>scheme = ''https'', netloc = ''example.com'', path = ''/docs/a b/''\<rparr>"
  let ?w = "\<lambda>c. c \<in> set ''abcdefghijklmnopqrstuvwxyz''"
  have v: "valid_datetime ?now" by (simp add: valid_datetime_def)
  have e: "take 200 (re_sub_invalid ?w (netloc ?p @ ''_'' @ strip (path ?p) ''/''))
             @ ''_'' @ strftime_stamp ?now @ ''.md''
           = ''example.com_docs_a_b_20240131_230509.md''"
    by code_simp
  from save_markdown_file_filename_shape [OF v, of "\<lambda>u. Inr ?p" "''https://example.com/docs/a b/''" ?p ?w]
  show ?thesis using v unfolding Let_def e by simp
qed


section \<open>Crawling one URL with retries\<close>

lemma print_then_quiet: "quiet b \<Longrightarrow> print_then b retry line s rest = rest"
  by (simp add: print_then_def quiet_def)

lemma attempt_fails:
  "fails_at b r \<Longrightarrow> quiet b \<Longrightarrow>
   attempt m url b r s =
     (Next, if int r < m - 1 then s\<lparr>trace := trace s @ [Arun url, Sleep 2]\<rparr>
            else s\<lparr>failed_urls := failed_urls s + 1, trace := trace s @ [Arun url]\<rparr>)"
  by (auto simp: attempt_def try_body_def on_exception_def print_then_quiet fails_at_def Let_def
      split: sum.splits)

lemma attempt_succeeds:
  "arun b r = Inr result \<Longrightarrow> success result \<Longrightarrow> store b r = Inr () \<Longrightarrow> quiet b \<Longrightarrow>
   attempt m url b r s =
     (Return, s\<lparr>processed_urls := processed_urls s + 1,
                trace := trace s @ [Arun url, Store url (raw_markdown result)]\<rparr>)"
  by (simp add: attempt_def try_body_def print_then_quiet Let_def)

lemma upt_split_first: "[k..<k + Suc j] = k # [Suc k..<Suc k + j]"
  by (simp add: upt_conv_Cons)

lemma retry_loop_fails:
  "(\<forall>r. fails_at b r) \<Longrightarrow> quiet b \<Longrightarrow> nat m = k + Suc j \<Longrightarrow>
   retry_loop m url b [k..<k + Suc j] s =
     (None, s\<lparr>failed_urls := failed_urls s + 1,
              trace := trace s @ concat (replicate j [Arun url, Sleep 2]) @ [Arun url]\<rparr>)"
proof (induction j arbitrary: k s)
  case 0
  then have ge: "\<not> int k < m - 1" by linarith
  have "[k..<k + Suc 0] = [k]" by simp
  then show ?case using 0 ge by (simp add: attempt_fails)
next
  case (Suc j)
  then have lt: "int k < m - 1" by linarith
  let ?s1 = "s\<lparr>trace := trace s @ [Arun url, Sleep 2]\<rparr>"
  have a: "attempt m url b k s = (Next, ?s1)"
    using Suc.prems(1,2) lt by (simp add: attempt_fails)
  have n: "nat m = Suc k + Suc j" using Suc.prems(3) by simp
  have "retry_loop m url b [k..<k + Suc (Suc j)] s = retry_loop m url b [Suc k..<Suc k + Suc j] ?s1"
    unfolding upt_split_first [of k "Suc j"] using a by simp
  also have "\<dots> = (None, ?s1\<lparr>failed_urls := failed_urls ?s1 + 1,
        trace := trace ?s1 @ concat (replicate j [Arun url, Sleep 2]) @ [Arun url]\<rparr>)"
    by (rule Suc.IH [OF Suc.prems(1,2) n])
  also have "\<dots> = (None, s\<lparr>failed_urls := failed_urls s + 1,
        trace := trace s @ concat (replicate (Suc j) [Arun url, Sleep 2]) @ [Arun url]\<rparr>)"
    by simp
  finally show ?case .
qed

lemma process_url_fails:
  assumes "\<forall>r. fails_at b r" and "quiet b" and "1 \<le> max_retries"
  shows "process_url max_retries url b s =
     (None, s\<lparr>failed_urls := failed_urls s + 1,
        trace := trace s @ concat (replicate (nat max_retries - 1) [Arun url, Sleep 2]) @ [Arun url]\<rparr>)"
proof -
  have "0 < nat max_retries" using assms(3) by simp
  then obtain j where j: "nat max_retries = 0 + Suc j"
    by (cases "nat max_retries") auto
  from retry_loop_fails [OF assms(1,2) j, of url s] j show ?thesis
    by (simp add: process_url_def)
qed

lemma retry_loop_succeeds:
  "(\<forall>r<k. fails_at b r) \<Longrightarrow> arun b k = Inr result \<Longrightarrow> success result \<Longrightarrow>
   store b k = Inr () \<Longrightarrow> quiet b \<Longrightarrow> int k < m \<Longrightarrow> i + j = k \<Longrightarrow>
   retry_loop m url b ([i..<i + Suc j] @ rest) s =
     (None, s\<lparr>processed_urls := processed_urls s + 1,
        trace := trace s @ concat (replicate j [Arun url, Sleep 2])
                  @ [Arun url, Store url (raw_markdown result)]\<rparr>)"
proof (induction j arbitrary: i s)
  case 0
  then have "i = k" by simp
  moreover have "[i..<i + Suc 0] = [i]" by simp
  ultimately show ?case using 0 by (simp add: attempt_succeeds)
next
  case (Suc j)
  then have lt: "int i < m - 1" and f: "fails_at b i" by auto
  let ?s1 = "s\<lparr>trace := trace s @ [Arun url, Sleep 2]\<rparr>"
  have a: "attempt m url b i s = (Next, ?s1)"
    using f lt Suc.prems(5) by (simp add: attempt_fails)
  have n: "Suc i + j = k" using Suc.prems(7) by simp
  have "retry_loop m url b ([i..<i + Suc (Suc j)] @ rest) s
          = retry_loop m url b ([Suc i..<Suc i + Suc j] @ rest) ?s1"
    unfolding upt_split_first [of i "Suc j"] using a by simp
  also have "\<dots> = (None, ?s1\<lparr>processed_urls := processed_urls ?s1 + 1,
        trace := trace ?s1 @ concat (replicate j [Arun url, Sleep 2])
                  @ [Arun url, Store url (raw_markdown result)]\<rparr>)"
    by (rule Suc.IH [OF Suc.prems(1-6) n])
  also have "\<dots> = (None, s\<lparr>processed_urls := processed_urls s + 1,
        trace := trace s @ concat (replicate (Suc j) [Arun url, Sleep 2])
                  @ [Arun url, Store url (raw_markdown result)]\<rparr>)"
    by simp
  finally show ?case .
qed

text \<open>
  What claim C4 says holds when the store after the successful fetch returns and no print
  raises: \<open>k\<close> failed fetches, each followed by a sleep, then the successful one, and no
  further call.
\<close>

lemma process_url_succeeds:
  assumes "\<forall>r<k. fails_at b r" and "arun b k = Inr result" and "success result"
    and "store b k = Inr ()" and "quiet b" and "int k < max_retries"
  shows "process_url max_retries url b s =
     (None, s\<lparr>processed_urls := processed_urls s + 1,
        trace := trace s @ concat (replicate k [Arun url, Sleep 2])
                  @ [Arun url, Store url (raw_markdown result)]\<rparr>)"
proof -
  have le: "Suc k \<le> nat max_retries" using assms(6) by linarith
  have "[0..<Suc k + (nat max_retries - Suc k)]
          = [0..<Suc k] @ [Suc k..<Suc k + (nat max_retries - Suc k)]"
    by (rule upt_add_eq_append) simp
  with le have "[0..<nat max_retries] = [0..<0 + Suc k] @ [Suc k..<nat max_retries]"
    by simp
  with retry_loop_succeeds [OF assms, of 0 k url "[Suc k..<nat max_retries]" s]
  show ?thesis by (simp add: process_url_def)
qed

text \<open>
  What one iteration adds to the counters when its store returns and its prints raise
  nothing: one when it ends the loop without an exception, nothing otherwise.
\<close>

lemma attempt_counts:
  "store b r = Inr () \<Longrightarrow> quiet b \<Longrightarrow> attempt m url b r s = (c, s') \<Longrightarrow>
   (c = Return \<longrightarrow> processed_urls s' + failed_urls s' = processed_urls s + failed_urls s + 1)
   \<and> (c = Next \<longrightarrow> processed_urls s' + failed_urls s' =
         processed_urls s + failed_urls s + (if int r < m - 1 then 0 else 1))
   \<and> (\<forall>e. c = Raise e \<longrightarrow> processed_urls s' + failed_urls s' =
         processed_urls s + failed_urls s)"
  by (auto simp: attempt_def try_body_def on_exception_def print_then_quiet Let_def
      split: sum.splits if_splits)

lemma retry_loop_counts:
  "(\<forall>r. store b r = Inr ()) \<Longrightarrow> quiet b \<Longrightarrow> nat m = k + Suc j \<Longrightarrow>
   retry_loop m url b [k..<k + Suc j] s = (None, s') \<Longrightarrow>
   processed_urls s' + failed_urls s' = processed_urls s + failed_urls s + 1"
proof (induction j arbitrary: k s)
  case 0
  then have ge: "\<not> int k < m - 1" by linarith
  obtain c s1 where a: "attempt m url b k s = (c, s1)" by (cases "attempt m url b k s")
  have st: "store b k = Inr ()" using 0 by simp
  have one: "[k..<k + Suc 0] = [k]" by simp
  show ?case using attempt_counts [OF st "0.prems"(2) a] ge a "0.prems"(4) unfolding one
    by (cases c) simp_all
next
  case (Suc j)
  then have lt: "int k < m - 1" by linarith
  obtain c s1 where a: "attempt m url b k s = (c, s1)" by (cases "attempt m url b k s")
  have st: "store b k = Inr ()" using Suc.prems by simp
  have n: "nat m = Suc k + Suc j" using Suc.prems(3) by simp
  show ?case
  proof (cases c)
    case Return
    then show ?thesis
      using attempt_counts [OF st Suc.prems(2) a] a Suc.prems(4)
      unfolding upt_split_first [of k "Suc j"] by simp
  next
    case Next
    with a Suc.prems(4) have r: "retry_loop m url b [Suc k..<Suc k + Suc j] s1 = (None, s')"
      unfolding upt_split_first [of k "Suc j"] by simp
    from Suc.IH [OF Suc.prems(1,2) n r] attempt_counts [OF st Suc.prems(2) a] Next lt
    show ?thesis by simp
  next
    case (Raise e)
    with a Suc.prems(4) show ?thesis unfolding upt_split_first [of k "Suc j"] by simp
  qed
qed

lemma process_url_counts:
  assumes "\<forall>r. store b r = Inr ()" and "quiet b" and "1 \<le> max_retries"
    and "process_url max_retries url b s = (None, s')"
  shows "processed_urls s' + failed_urls s' = processed_urls s + failed_urls s + 1"
proof -
  have "0 < nat max_retries" using assms(3) by simp
  then obtain j where j: "nat max_retries = 0 + Suc j"
    by (cases "nat max_retries") auto
  from assms(4) j have "retry_loop max_retries url b [0..<0 + Suc j] s = (None, s')"
    by (simp add: process_url_def)
  from retry_loop_counts [OF assms(1,2) j this] show ?thesis .
qed

lemma gather_counts:
  "1 \<le> max_retries \<Longrightarrow>
   (\<forall>k<length urls. (\<forall>r. store (env (i + k)) r = Inr ()) \<and> quiet (env (i + k))) \<Longrightarrow>
   gather max_retries env i urls s = (None, s') \<Longrightarrow>
   processed_urls s' + failed_urls s' = processed_urls s + failed_urls s + length urls"
proof (induction urls arbitrary: i s)
  case Nil
  then show ?case by simp
next
  case (Cons url urls)
  have h: "\<forall>r. store (env i) r = Inr ()" and q: "quiet (env i)"
    using Cons.prems(2) [rule_format, of 0] by simp_all
  have t: "\<forall>k<length urls. (\<forall>r. store (env (Suc i + k)) r = Inr ()) \<and> quiet (env (Suc i + k))"
  proof (intro allI impI)
    fix k
    assume "k < length urls"
    then show "(\<forall>r. store (env (Suc i + k)) r = Inr ()) \<and> quiet (env (Suc i + k))"
      using Cons.prems(2) [rule_format, of "Suc k"] by simp
  qed
  obtain o1 s1 where p: "process_url max_retries url (env i) s = (o1, s1)"
    by (cases "process_url max_retries url (env i) s")
  with Cons.prems(3) have o1: "o1 = None" and g: "gather max_retries env (Suc i) urls s1 = (None, s')"
    by (cases o1; simp)+
  from process_url_counts [OF h q Cons.prems(1)] p o1
  have "processed_urls s1 + failed_urls s1 = processed_urls s + failed_urls s + 1" by simp
  with Cons.IH [OF Cons.prems(1) t g] show ?case by simp
qed

text \<open>
  A task leaves the loop without an exception when its fetcher raises only subclasses of
  \<^verbatim>\<open>Exception\<close>, its store returns and its prints raise nothing.
\<close>

lemma attempt_no_raise:
  "store b r = Inr () \<Longrightarrow> quiet b \<Longrightarrow> (\<forall>e. arun b r = Inl e \<longrightarrow> is_exception e) \<Longrightarrow>
   attempt m url b r s \<noteq> (Raise e', s')"
  by (auto simp: attempt_def try_body_def on_exception_def print_then_quiet Let_def
      split: sum.splits if_splits)

lemma retry_loop_no_raise:
  "(\<forall>r. store b r = Inr ()) \<Longrightarrow> quiet b \<Longrightarrow> (\<forall>r e. arun b r = Inl e \<longrightarrow> is_exception e) \<Longrightarrow>
   fst (retry_loop m url b rs s) = None"
proof (induction rs arbitrary: s)
  case Nil
  then show ?case by simp
next
  case (Cons r rs)
  obtain c s1 where a: "attempt m url b r s = (c, s1)" by (cases "attempt m url b r s")
  show ?case
  proof (cases c)
    case Return
    with a show ?thesis by simp
  next
    case Next
    with a Cons.IH [OF Cons.prems, of s1] show ?thesis by simp
  next
    case (Raise e)
    have st: "store b r = Inr ()" using Cons.prems(1) by simp
    have ar: "\<forall>e. arun b r = Inl e \<longrightarrow> is_exception e" using Cons.prems(3) by simp
    from attempt_no_raise [OF st Cons.prems(2) ar, of m url s e s1] a Raise
    show ?thesis by simp
  qed
qed

lemma gather_no_raise:
  "(\<forall>k<length urls. (\<forall>r. store (env (i + k)) r = Inr ()) \<and> quiet (env (i + k))
      \<and> (\<forall>r e. arun (env (i + k)) r = Inl e \<longrightarrow> is_exception e)) \<Longrightarrow>
   fst (gather max_retries env i urls s) = None"
proof (induction urls arbitrary: i s)
  case Nil
  then show ?case by simp
next
  case (Cons url urls)
  have h: "\<forall>r. store (env i) r = Inr ()" "quiet (env i)"
    "\<forall>r e. arun (env i) r = Inl e \<longrightarrow> is_exception e"
    using Cons.prems [rule_format, of 0] by simp_all
  have t: "\<forall>k<length urls. (\<forall>r. store (env (Suc i + k)) r = Inr ()) \<and> quiet (env (Suc i + k))
      \<and> (\<forall>r e. arun (env (Suc i + k)) r = Inl e \<longrightarrow> is_exception e)"
  proof (intro allI impI)
    fix k
    assume "k < length urls"
    then show "(\<forall>r. store (env (Suc i + k)) r = Inr ()) \<and> quiet (env (Suc i + k))
      \<and> (\<forall>r e. arun (env (Suc i + k)) r = Inl e \<longrightarrow> is_exception e)"
      using Cons.prems [rule_format, of "Suc k"] by simp
  qed
  obtain o1 s1 where p: "process_url max_retries url (env i) s = (o1, s1)"
    by (cases "process_url max_retries url (env i) s")
  have "fst (process_url max_retries url (env i) s) = None"
    unfolding process_url_def using h by (rule retry_loop_no_raise)
  with p have "o1 = None" by simp
  with p Cons.IH [OF t, of s1] show ?case by simp
qed

lemma filter_concat_replicate_pair:
  "P a \<Longrightarrow> \<not> P b \<Longrightarrow> filter P (concat (replicate j [a, b])) = replicate j a"
  by (induction j) simp_all

lemma filter_concat_replicate_pair':
  "\<not> P a \<Longrightarrow> P b \<Longrightarrow> filter P (concat (replicate j [a, b])) = replicate j b"
  by (induction j) simp_all

text \<open>
  Claim C3, as stated, fails at three inputs, each with a fetcher that fails at every
  call. With \<^verbatim>\<open>max_retries\<close> 0 the loop body never runs: the fetcher is not called and the
  URL is not counted as failed. A fetcher that raises \<^verbatim>\<open>asyncio.CancelledError\<close>, which is
  no subclass of \<^verbatim>\<open>Exception\<close>, is called once: line 268 does not catch the exception, which
  leaves \<^verbatim>\<open>process_url\<close> with the URL not counted. Where the print of line 269 raises, its
  exception leaves \<^verbatim>\<open>process_url\<close> from inside the handler, after one call.
\<close>

theorem process_url_always_fails_refuted:
  "process_url 0 ''https://a.test/p''
      \<lparr>arun = (\<lambda>r. Inl ConnectionError), store = (\<lambda>r. Inr ()), print_raises = (\<lambda>r l. None)\<rparr>
      \<lparr>processed_urls = 0, failed_urls = 0, trace = []\<rparr>
     = (None, \<lparr>processed_urls = 0, failed_urls = 0, trace = []\<rparr>)
   \<and> process_url 3 ''https://a.test/p''
      \<lparr>arun = (\<lambda>r. Inl CancelledError), store = (\<lambda>r. Inr ()), print_raises = (\<lambda>r l. None)\<rparr>
      \<lparr>processed_urls = 0, failed_urls = 0, trace = []\<rparr>
     = (Some CancelledError,
        \<lparr>processed_urls = 0, failed_urls = 0, trace = [Arun ''https://a.test/p'']\<rparr>)
   \<and> process_url 3 ''https://a.test/p''
      \<lparr>arun = (\<lambda>r. Inl ConnectionError), store = (\<lambda>r. Inr ()),
       print_raises = (\<lambda>r l. if l = 269 then Some UnicodeEncodeError else None)\<rparr>
      \<lparr>processed_urls = 0, failed_urls = 0, trace = []\<rparr>
     = (Some UnicodeEncodeError,
        \<lparr>processed_urls = 0, failed_urls = 0, trace = [Arun ''https://a.test/p'']\<rparr>)"
  by (simp add: process_url_def attempt_def try_body_def on_exception_def print_then_def
      Let_def upt_conv_Cons)

text \<open>
  Claim C3, amended. When every fetch of a URL fails (\<^verbatim>\<open>arun\<close> raises a subclass of
  \<^verbatim>\<open>Exception\<close> or reports \<^verbatim>\<open>success\<close> false), no print of the task raises and
  \<^verbatim>\<open>max_retries\<close> is at least 1, \<^verbatim>\<open>process_url\<close> returns and no exception leaves it, having
  called the fetcher \<^verbatim>\<open>max_retries\<close> times with one sleep of two seconds between
  consecutive calls and none after the last, and having added one to \<^verbatim>\<open>failed_urls\<close> and
  nothing to \<^verbatim>\<open>processed_urls\<close>.
\<close>

theorem process_url_always_fails:
  assumes "\<forall>r. fails_at b r" and "quiet b" and "1 \<le> max_retries"
  shows "let calls = concat (replicate (nat max_retries - 1) [Arun url, Sleep 2]) @ [Arun url]
         in process_url max_retries url b s =
              (None, s\<lparr>failed_urls := failed_urls s + 1, trace := trace s @ calls\<rparr>)
            \<and> length (filter (\<lambda>e. e = Arun url) calls) = nat max_retries
            \<and> length (filter (\<lambda>e. e = Sleep 2) calls) = nat max_retries - 1
            \<and> last calls = Arun url"
proof -
  have 1: "process_url max_retries url b s =
     (None, s\<lparr>failed_urls := failed_urls s + 1,
        trace := trace s @ concat (replicate (nat max_retries - 1) [Arun url, Sleep 2]) @ [Arun url]\<rparr>)"
    using assms by (rule process_url_fails)
  have 2: "length (filter (\<lambda>e. e = Arun url)
             (concat (replicate (nat max_retries - 1) [Arun url, Sleep 2]) @ [Arun url])) = nat max_retries"
    using assms(3) by (simp add: filter_concat_replicate_pair)
  have 3: "length (filter (\<lambda>e. e = Sleep 2)
             (concat (replicate (nat max_retries - 1) [Arun url, Sleep 2]) @ [Arun url])) = nat max_retries - 1"
    by (simp add: filter_concat_replicate_pair')
  show ?thesis unfolding Let_def using 1 2 3 by simp
qed

theorem process_url_always_fails_witness:
  "process_url 3 ''https://a.test/p''
      \<lparr>arun = (\<lambda>r. if r = 1 then Inr \<lparr>success = False, raw_markdown = [], error_message = ''timeout''\<rparr>
                    else Inl ConnectionError),
       store = (\<lambda>r. Inr ()), print_raises = (\<lambda>r l. None)\<rparr>
      \<lparr>processed_urls = 0, failed_urls = 0, trace = []\<rparr>
     = (None, \<lparr>processed_urls = 0, failed_urls = 1,
        trace = [Arun ''https://a.test/p'', Sleep 2, Arun ''https://a.test/p'', Sleep 2,
                 Arun ''https://a.test/p'']\<rparr>)"
proof -
  let ?b = "\<lparr>arun = (\<lambda>r::nat. if r = 1
                        then Inr \<lparr>success = False, raw_markdown = [], error_message = ''timeout''\<rparr>
                        else Inl ConnectionError),
             store = (\<lambda>r::nat. Inr () :: exn + unit),
             print_raises = (\<lambda>(r::nat) (l::nat). None :: exn option)\<rparr>"
  have f: "\<forall>r. fails_at ?b r" by (simp add: fails_at_def)
  have q: "quiet ?b" by (simp add: quiet_def)
  have m: "(1::int) \<le> 3" by simp
  have r: "replicate (nat 3 - 1) [Arun ''https://a.test/p'', Sleep 2]
      = [[Arun ''https://a.test/p'', Sleep 2], [Arun ''https://a.test/p'', Sleep 2]]"
    by (simp add: numeral_2_eq_2 numeral_3_eq_3)
  from process_url_always_fails [OF f q m, of "''https://a.test/p''"
      "\<lparr>processed_urls = 0, failed_urls = 0, trace = []\<rparr>"]
  show ?thesis unfolding Let_def r by simp
qed

text \<open>
  Claim C4 on the code. With \<^verbatim>\<open>max_retries\<close> 3, a fetcher that succeeds at its first call
  (\<open>k = 0\<close>) and a store that raises once: the exception is caught by the handler of
  line 268, the URL is fetched a second time and \<^verbatim>\<open>processed_urls\<close> is raised twice.
\<close>

theorem process_url_store_raises_after_success:
  "process_url 3 ''https://a.test/p''
      \<lparr>arun = (\<lambda>r. Inr \<lparr>success = True, raw_markdown = ''# p'', error_message = []\<rparr>),
       store = (\<lambda>r. if r = 0 then Inl OSError else Inr ()),
       print_raises = (\<lambda>r l. None)\<rparr>
      \<lparr>processed_urls = 0, failed_urls = 0, trace = []\<rparr>
     = (None, \<lparr>processed_urls = 2, failed_urls = 0,
        trace = [Arun ''https://a.test/p'', Store ''https://a.test/p'' ''# p'', Sleep 2,
                 Arun ''https://a.test/p'', Store ''https://a.test/p'' ''# p'']\<rparr>)"
  by (simp add: process_url_def attempt_def try_body_def on_exception_def print_then_def
      Let_def upt_conv_Cons)

text \<open>
  Claim C1, as stated, fails at three inputs, in runs that return. With \<^verbatim>\<open>max_retries\<close> 0
  no task counts its URL. With a store that raises after every successful fetch, one URL
  is counted three times as processed and once as failed. Where the print of line 267
  raises, the handler of line 268 counts the URL as failed a second time.
\<close>

theorem crawl_parallel_miscounts:
  "crawl_parallel \<lparr>start_time = 0, end_time = 7000000, top_raises = (\<lambda>l. None)\<rparr>
      (\<lambda>i. \<lparr>arun = (\<lambda>r. Inl ConnectionError), store = (\<lambda>r. Inr ()),
             print_raises = (\<lambda>r l. None)\<rparr>)
      [''https://a.test/p''] 5 0
     = Returned \<lparr>processed_urls = 0, failed_urls = 0, trace = []\<rparr>
   \<and> (0::nat) + 0 \<noteq> length [''https://a.test/p'']
   \<and> crawl_parallel \<lparr>start_time = 0, end_time = 7000000, top_raises = (\<lambda>l. None)\<rparr>
      (\<lambda>i. \<lparr>arun = (\<lambda>r. Inr \<lparr>success = True, raw_markdown = ''# p'', error_message = []\<rparr>),
             store = (\<lambda>r. Inl OSError), print_raises = (\<lambda>r l. None)\<rparr>)
      [''https://a.test/p''] 5 3
     = Returned \<lparr>processed_urls = 3, failed_urls = 1,
        trace = [Arun ''https://a.test/p'', Store ''https://a.test/p'' ''# p'', Sleep 2,
                 Arun ''https://a.test/p'', Store ''https://a.test/p'' ''# p'', Sleep 2,
                 Arun ''https://a.test/p'', Store ''https://a.test/p'' ''# p'']\<rparr>
   \<and> (3::nat) + 1 \<noteq> length [''https://a.test/p'']
   \<and> crawl_parallel \<lparr>start_time = 0, end_time = 7000000, top_raises = (\<lambda>l. None)\<rparr>
      (\<lambda>i. \<lparr>arun = (\<lambda>r. Inr \<lparr>success = False, raw_markdown = [], error_message = ''timeout''\<rparr>),
             store = (\<lambda>r. Inr ()),
             print_raises = (\<lambda>r l. if l = 267 then Some UnicodeEncodeError else None)\<rparr>)
      [''https://a.test/p''] 5 1
     = Returned \<lparr>processed_urls = 0, failed_urls = 2, trace = [Arun ''https://a.test/p'']\<rparr>
   \<and> (0::nat) + 2 \<noteq> length [''https://a.test/p'']"
  by (simp add: crawl_parallel_def finally_close_def summary_def process_url_def attempt_def
      try_body_def on_exception_def print_then_def Let_def upt_conv_Cons)

section \<open>The tasks interleaved\<close>

lemma count_update:
  "i < length xs \<Longrightarrow>
   length (filter P (xs[i := v])) + (if P (xs ! i) then 1 else 0)
     = length (filter P xs) + (if P v then 1 else 0)"
proof (induction xs arbitrary: i)
  case Nil
  then show ?case by simp
next
  case (Cons x xs)
  then show ?case by (cases i) auto
qed

lemma step_gate_inv:
  assumes "step m env urls p q" and "gate_inv c (length urls) p"
  shows "gate_inv c (length urls) q"
  using assms
proof (induction rule: step.induct)
  case (acquire i p)
  then show ?case using count_update [of i "pcs p" in_region "Fetching 0"]
    by (simp add: gate_inv_def in_flight_def)
next
  case (pass i p)
  then show ?case using count_update [of i "pcs p" in_region Done]
    by (simp add: gate_inv_def in_flight_def)
next
  case (fetched_return i p r s')
  then show ?case using count_update [of i "pcs p" in_region Done]
    by (simp add: gate_inv_def in_flight_def)
next
  case (fetched_retry i p r s')
  then show ?case using count_update [of i "pcs p" in_region "Sleeping r"]
    by (simp add: gate_inv_def in_flight_def)
next
  case (fetched_last i p r s')
  then show ?case using count_update [of i "pcs p" in_region Done]
    by (simp add: gate_inv_def in_flight_def)
next
  case (fetched_raise i p r e s')
  then show ?case using count_update [of i "pcs p" in_region Crashed]
    by (simp add: gate_inv_def in_flight_def)
next
  case (woke i p r)
  then show ?case using count_update [of i "pcs p" in_region "Fetching (Suc r)"]
    by (simp add: gate_inv_def in_flight_def)
qed

lemma steps_gate_inv:
  assumes "(step m env urls)\<^sup>*\<^sup>* p q" and "gate_inv c (length urls) p"
  shows "gate_inv c (length urls) q"
  using assms by (induction rule: rtranclp_induct) (auto intro: step_gate_inv)

lemma init_gate_inv:
  "crawl_init max_concurrent urls = Inr p \<Longrightarrow> gate_inv (nat max_concurrent) (length urls) p"
  by (auto simp: crawl_init_def gate_inv_def in_flight_def split: if_splits)

text \<open>
  Claim C2. In every state that the tasks can reach from the start, under every schedule
  and every behaviour of the fetcher, the store and the console, the number of tasks inside
  \<^verbatim>\<open>async with semaphore\<close> (fetching, or sleeping between two fetches) is at most
  \<^verbatim>\<open>max_concurrent\<close>: these tasks and the free permits add up to \<^verbatim>\<open>max_concurrent\<close>.
\<close>

theorem semaphore_bounds_in_flight:
  assumes "crawl_init max_concurrent urls = Inr p0"
    and "(step max_retries env urls)\<^sup>*\<^sup>* p0 p"
  shows "int (in_flight p) \<le> max_concurrent \<and> in_flight p + permits p = nat max_concurrent"
proof -
  have "gate_inv (nat max_concurrent) (length urls) p"
    using steps_gate_inv [OF assms(2) init_gate_inv [OF assms(1)]] .
  moreover have "0 \<le> max_concurrent" using assms(1) by (auto simp: crawl_init_def split: if_splits)
  ultimately show ?thesis by (auto simp: gate_inv_def)
qed

theorem semaphore_bounds_in_flight_witness:
  "crawl_init 1 [''https://a.test/p'', ''https://a.test/q'']
     = Inr \<lparr>permits = 1, pcs = [Waiting, Waiting],
            shared = \<lparr>processed_urls = 0, failed_urls = 0, trace = []\<rparr>\<rparr>
   \<and> step 3 (\<lambda>i. \<lparr>arun = (\<lambda>r. Inl ConnectionError), store = (\<lambda>r. Inr ()),
                   print_raises = (\<lambda>r l. None)\<rparr>)
        [''https://a.test/p'', ''https://a.test/q'']
        \<lparr>permits = 1, pcs = [Waiting, Waiting],
           shared = \<lparr>processed_urls = 0, failed_urls = 0, trace = []\<rparr>\<rparr>
        \<lparr>permits = 0, pcs = [Fetching 0, Waiting],
           shared = \<lparr>processed_urls = 0, failed_urls = 0, trace = []\<rparr>\<rparr>
   \<and> int (in_flight \<lparr>permits = 0, pcs = [Fetching 0, Waiting],
           shared = \<lparr>processed_urls = 0, failed_urls = 0, trace = []\<rparr>\<rparr>) \<le> 1"
proof -
  let ?urls = "[''https://a.test/p'', ''https://a.test/q'']"
  let ?env = "\<lambda>i::nat. \<lparr>arun = (\<lambda>r::nat. Inl ConnectionError :: exn + crawl_result),
                          store = (\<lambda>r::nat. Inr () :: exn + unit),
                          print_raises = (\<lambda>(r::nat) (l::nat). None :: exn option)\<rparr>"
  let ?p0 = "\<lparr>permits = 1, pcs = [Waiting, Waiting],
           shared = \<lparr>processed_urls = 0, failed_urls = 0, trace = []\<rparr>\<rparr>"
  let ?p1 = "\<lparr>permits = 0, pcs = [Fetching 0, Waiting],
           shared = \<lparr>processed_urls = 0, failed_urls = 0, trace = []\<rparr>\<rparr>"
  have i: "crawl_init 1 ?urls = Inr ?p0" by (simp add: crawl_init_def)
  have "step 3 ?env ?urls ?p0 (?p0\<lparr>permits := permits ?p0 - 1, pcs := (pcs ?p0)[0 := Fetching 0]\<rparr>)"
    by (rule step.acquire) simp_all
  then have s: "step 3 ?env ?urls ?p0 ?p1" by simp
  then have r: "(step 3 ?env ?urls)\<^sup>*\<^sup>* ?p0 ?p1" by (rule r_into_rtranclp)
  from semaphore_bounds_in_flight [OF i r] have "int (in_flight ?p1) \<le> 1" by (rule conjunct1)
  with i s show ?thesis by (intro conjI)
qed

lemma count_update_done:
  "i < length xs \<Longrightarrow> xs ! i \<noteq> Done \<Longrightarrow>
   length (filter (\<lambda>c. c = Done) (xs[i := v]))
     = length (filter (\<lambda>c. c = Done) xs) + (if v = Done then 1 else 0)"
  using count_update [of i xs "\<lambda>c. c = Done" v] by simp

lemma step_count_inv:
  assumes "step m env urls p q" and "count_inv (length urls) p"
    and "1 \<le> m" and "\<forall>i<length urls. (\<forall>r. store (env i) r = Inr ()) \<and> quiet (env i)"
  shows "count_inv (length urls) q"
  using assms
proof (induction rule: step.induct)
  case (acquire i p)
  then show ?case using count_update_done [of i "pcs p" "Fetching 0"]
    by (simp add: count_inv_def finished_def)
next
  case (pass i p)
  then show ?case by simp
next
  case (fetched_return i p r s')
  then have st: "store (env i) r = Inr ()" and q: "quiet (env i)" by simp_all
  from attempt_counts [OF st q fetched_return(3)] fetched_return
  show ?case using count_update_done [of i "pcs p" Done]
    by (simp add: count_inv_def finished_def)
next
  case (fetched_retry i p r s')
  then have st: "store (env i) r = Inr ()" and q: "quiet (env i)" by simp_all
  from attempt_counts [OF st q fetched_retry(3)] fetched_retry
  show ?case using count_update_done [of i "pcs p" "Sleeping r"]
    by (simp add: count_inv_def finished_def)
next
  case (fetched_last i p r s')
  then have st: "store (env i) r = Inr ()" and q: "quiet (env i)" by simp_all
  from attempt_counts [OF st q fetched_last(3)] fetched_last
  show ?case using count_update_done [of i "pcs p" Done]
    by (simp add: count_inv_def finished_def)
next
  case (fetched_raise i p r e s')
  then have st: "store (env i) r = Inr ()" and q: "quiet (env i)" by simp_all
  from attempt_counts [OF st q fetched_raise(3)] fetched_raise
  show ?case using count_update_done [of i "pcs p" Crashed]
    by (simp add: count_inv_def finished_def)
next
  case (woke i p r)
  then show ?case using count_update_done [of i "pcs p" "Fetching (Suc r)"]
    by (simp add: count_inv_def finished_def)
qed

lemma steps_count_inv:
  assumes "(step m env urls)\<^sup>*\<^sup>* p q" and "count_inv (length urls) p"
    and "1 \<le> m" and "\<forall>i<length urls. (\<forall>r. store (env i) r = Inr ()) \<and> quiet (env i)"
  shows "count_inv (length urls) q"
  using assms by (induction rule: rtranclp_induct) (auto intro: step_count_inv)

lemma init_count_inv:
  "crawl_init max_concurrent urls = Inr p \<Longrightarrow> count_inv (length urls) p"
  by (auto simp: crawl_init_def count_inv_def finished_def split: if_splits)

lemma all_done_finished: "list_all (\<lambda>c. c = Done) xs \<Longrightarrow> length (filter (\<lambda>c. c = Done) xs) = length xs"
  by (induction xs) auto

lemma interleaved_counts:
  assumes "1 \<le> max_retries"
    and "\<forall>i<length urls. (\<forall>r. store (env i) r = Inr ()) \<and> quiet (env i)"
    and "crawl_init max_concurrent urls = Inr p0"
    and "(step max_retries env urls)\<^sup>*\<^sup>* p0 p"
  shows "processed_urls (shared p) + failed_urls (shared p) = finished p"
    and "list_all (\<lambda>c. c = Done) (pcs p) \<Longrightarrow>
      processed_urls (shared p) + failed_urls (shared p) = length urls"
proof -
  have inv: "count_inv (length urls) p"
    using steps_count_inv [OF assms(4) init_count_inv [OF assms(3)] assms(1,2)] .
  then show "processed_urls (shared p) + failed_urls (shared p) = finished p"
    by (simp add: count_inv_def)
  assume "list_all (\<lambda>c. c = Done) (pcs p)"
  from all_done_finished [OF this] inv
  show "processed_urls (shared p) + failed_urls (shared p) = length urls"
    by (simp add: count_inv_def finished_def)
qed

text \<open>
  Running the tasks one after the other, in the order of the list, is one of the
  schedules: where no exception leaves a task, it ends with every task done and with the
  state that \<open>gather\<close> computes.
\<close>

lemma run_loop:
  "i < length urls \<Longrightarrow> length (pcs q) = length urls \<Longrightarrow> pcs q ! i = Fetching r \<Longrightarrow>
   nat m = r + Suc j \<Longrightarrow>
   retry_loop m (urls ! i) (env i) [r..<r + Suc j] (shared q) = (None, s) \<Longrightarrow>
   (step m env urls)\<^sup>*\<^sup>* q
     (q\<lparr>permits := permits q + 1, pcs := (pcs q)[i := Done], shared := s\<rparr>)"
proof (induction j arbitrary: r q)
  case 0
  then have last: "\<not> int r < m - 1" by linarith
  have one: "[r..<r + Suc 0] = [r]" by simp
  obtain c s' where a: "attempt m (urls ! i) (env i) r (shared q) = (c, s')"
    by (cases "attempt m (urls ! i) (env i) r (shared q)")
  show ?case
  proof (cases c)
    case Return
    with a "0.prems"(5) have s: "s' = s" unfolding one by simp
    from a Return have "step m env urls q (q\<lparr>permits := permits q + 1, pcs := (pcs q)[i := Done], shared := s'\<rparr>)"
      using 0 by (intro step.fetched_return) simp_all
    then show ?thesis unfolding s by (rule r_into_rtranclp)
  next
    case Next
    with a "0.prems"(5) have s: "s' = s" unfolding one by simp
    from a Next have "step m env urls q (q\<lparr>permits := permits q + 1, pcs := (pcs q)[i := Done], shared := s'\<rparr>)"
      using 0 last by (intro step.fetched_last) simp_all
    then show ?thesis unfolding s by (rule r_into_rtranclp)
  next
    case (Raise e)
    with a "0.prems"(5) show ?thesis unfolding one by simp
  qed
next
  case (Suc j)
  then have more: "int r < m - 1" by linarith
  obtain c s' where a: "attempt m (urls ! i) (env i) r (shared q) = (c, s')"
    by (cases "attempt m (urls ! i) (env i) r (shared q)")
  show ?case
  proof (cases c)
    case Return
    with a Suc.prems(5) have s: "s' = s" unfolding upt_split_first [of r "Suc j"] by simp
    from a Return have "step m env urls q (q\<lparr>permits := permits q + 1, pcs := (pcs q)[i := Done], shared := s'\<rparr>)"
      using Suc.prems by (intro step.fetched_return) simp_all
    then show ?thesis unfolding s by (rule r_into_rtranclp)
  next
    case Next
    let ?q1 = "q\<lparr>pcs := (pcs q)[i := Sleeping r], shared := s'\<rparr>"
    let ?q2 = "?q1\<lparr>pcs := (pcs ?q1)[i := Fetching (Suc r)]\<rparr>"
    have s1: "step m env urls q ?q1"
      using a Next Suc.prems more by (intro step.fetched_retry) simp_all
    have s2: "step m env urls ?q1 ?q2"
      using Suc.prems by (intro step.woke [where r = r]) simp_all
    have n: "nat m = Suc r + Suc j" using Suc.prems(4) by simp
    have l: "retry_loop m (urls ! i) (env i) [Suc r..<Suc r + Suc j] (shared ?q2) = (None, s)"
      using a Next Suc.prems(5) unfolding upt_split_first [of r "Suc j"] by simp
    have s3: "(step m env urls)\<^sup>*\<^sup>* ?q2
       (?q2\<lparr>permits := permits ?q2 + 1, pcs := (pcs ?q2)[i := Done], shared := s\<rparr>)"
      using Suc.prems(1-3) l by (intro Suc.IH [OF _ _ _ n]) simp_all
    have e: "?q2\<lparr>permits := permits ?q2 + 1, pcs := (pcs ?q2)[i := Done], shared := s\<rparr>
        = q\<lparr>permits := permits q + 1, pcs := (pcs q)[i := Done], shared := s\<rparr>"
      by simp
    from s1 s2 s3 show ?thesis unfolding e by (meson converse_rtranclp_into_rtranclp)
  next
    case (Raise e)
    with a Suc.prems(5) show ?thesis unfolding upt_split_first [of r "Suc j"] by simp
  qed
qed

lemma run_task:
  assumes "i < length urls" and "length (pcs p) = length urls" and "pcs p ! i = Waiting"
    and "0 < permits p" and "process_url m (urls ! i) (env i) (shared p) = (None, s)"
  shows "(step m env urls)\<^sup>*\<^sup>* p (p\<lparr>pcs := (pcs p)[i := Done], shared := s\<rparr>)"
proof (cases "0 < m")
  case False
  then have "step m env urls p (p\<lparr>pcs := (pcs p)[i := Done]\<rparr>)"
    using assms by (intro step.pass) simp_all
  moreover have "s = shared p"
    using False assms(5) by (simp add: process_url_def)
  ultimately show ?thesis by (simp add: r_into_rtranclp)
next
  case True
  let ?p1 = "p\<lparr>permits := permits p - 1, pcs := (pcs p)[i := Fetching 0]\<rparr>"
  have s1: "step m env urls p ?p1"
    using assms True by (intro step.acquire) simp_all
  obtain j where j: "nat m = 0 + Suc j" using True by (cases "nat m") auto
  have l: "retry_loop m (urls ! i) (env i) [0..<0 + Suc j] (shared ?p1) = (None, s)"
    using assms(5) j by (simp add: process_url_def)
  have s2: "(step m env urls)\<^sup>*\<^sup>* ?p1
     (?p1\<lparr>permits := permits ?p1 + 1, pcs := (pcs ?p1)[i := Done], shared := s\<rparr>)"
    using assms(1-3) l by (intro run_loop [OF _ _ _ j]) simp_all
  have e: "?p1\<lparr>permits := permits ?p1 + 1, pcs := (pcs ?p1)[i := Done], shared := s\<rparr>
      = p\<lparr>pcs := (pcs p)[i := Done], shared := s\<rparr>"
    using assms(4) by simp
  from s1 s2 show ?thesis unfolding e by (meson converse_rtranclp_into_rtranclp)
qed

lemma run_all:
  "n = length urls - k \<Longrightarrow> k \<le> length urls \<Longrightarrow>
   pcs p = replicate k Done @ replicate (length urls - k) Waiting \<Longrightarrow> 0 < permits p \<Longrightarrow>
   gather m env k (drop k urls) (shared p) = (None, s) \<Longrightarrow>
   (step m env urls)\<^sup>*\<^sup>* p (p\<lparr>pcs := replicate (length urls) Done, shared := s\<rparr>)"
proof (induction n arbitrary: k p)
  case 0
  then have "k = length urls" by simp
  with 0 have "p\<lparr>pcs := replicate (length urls) Done, shared := s\<rparr> = p"
    by simp
  then show ?case by (simp only: rtranclp.rtrancl_refl)
next
  case (Suc n)
  then have k: "k < length urls" by simp
  have d: "drop k urls = urls ! k # drop (Suc k) urls" using k by (simp add: Cons_nth_drop_Suc)
  obtain o1 s1 where pu: "process_url m (urls ! k) (env k) (shared p) = (o1, s1)"
    by (cases "process_url m (urls ! k) (env k) (shared p)")
  with Suc.prems(5) have o1: "o1 = None" and g: "gather m env (Suc k) (drop (Suc k) urls) s1 = (None, s)"
    unfolding d by (cases o1; simp)+
  let ?p1 = "p\<lparr>pcs := (pcs p)[k := Done], shared := s1\<rparr>"
  have w: "pcs p ! k = Waiting" using Suc.prems(3) k by (simp add: nth_append)
  have l: "length (pcs p) = length urls" using Suc.prems(3) k by simp
  have pu': "process_url m (urls ! k) (env k) (shared p) = (None, s1)" using pu o1 by simp
  have s1: "(step m env urls)\<^sup>*\<^sup>* p ?p1" using k l w Suc.prems(4) pu' by (rule run_task)
  have r: "replicate (length urls - k) Waiting = Waiting # replicate (length urls - Suc k) Waiting"
    using k by (metis Suc_diff_Suc replicate_Suc)
  have pcs1: "pcs ?p1 = replicate (Suc k) Done @ replicate (length urls - Suc k) Waiting"
    using Suc.prems(3) unfolding r by (simp add: list_update_append replicate_append_same)
  have s2: "(step m env urls)\<^sup>*\<^sup>* ?p1
     (?p1\<lparr>pcs := replicate (length urls) Done, shared := s\<rparr>)"
    using Suc.prems(1,4) k pcs1 g by (intro Suc.IH) simp_all
  have e: "?p1\<lparr>pcs := replicate (length urls) Done, shared := s\<rparr>
      = p\<lparr>pcs := replicate (length urls) Done, shared := s\<rparr>"
    by simp
  from s1 s2 show ?case unfolding e by (rule rtranclp_trans)
qed

lemma sequential_schedule_is_run:
  assumes "1 \<le> max_concurrent" and "crawl_init max_concurrent urls = Inr p0"
    and "gather max_retries env 0 urls \<lparr>processed_urls = 0, failed_urls = 0, trace = []\<rparr> = (None, s)"
  shows "(step max_retries env urls)\<^sup>*\<^sup>* p0
           (p0\<lparr>pcs := replicate (length urls) Done, shared := s\<rparr>)"
proof -
  have p0: "p0 = \<lparr>permits = nat max_concurrent, pcs = replicate (length urls) Waiting,
                   shared = \<lparr>processed_urls = 0, failed_urls = 0, trace = []\<rparr>\<rparr>"
    using assms(1,2) by (simp add: crawl_init_def split: if_splits)
  have g: "gather max_retries env 0 (drop 0 urls) (shared p0) = (None, s)"
    using assms(3) p0 by simp
  show ?thesis
    using assms(1) p0 g by (intro run_all [where n = "length urls" and k = 0]) simp_all
qed

text \<open>With no permit at the start, no task can take a step.\<close>

lemma no_permit_no_step:
  assumes "crawl_init 0 urls = Inr p0"
  shows "\<not> step max_retries env urls p0 q"
proof
  assume "step max_retries env urls p0 q"
  moreover have "permits p0 = 0" and "\<And>i. i < length urls \<Longrightarrow> pcs p0 ! i = Waiting"
    using assms by (auto simp: crawl_init_def)
  ultimately show False by (cases rule: step.cases) auto
qed

section \<open>The counters of a run\<close>

lemma first_raise_quiet: "quiet_run w \<Longrightarrow> first_raise (top_raises w) lines = None"
  by (induction lines) (simp_all add: quiet_run_def)

lemma summary_quiet:
  "quiet_run w \<Longrightarrow> end_time w \<noteq> start_time w \<or> processed_urls s = 0 \<Longrightarrow> summary w s = None"
  by (auto simp: summary_def first_raise_quiet quiet_run_def)

lemma crawl_parallel_returned:
  "crawl_parallel w env urls max_concurrent max_retries = Returned s \<Longrightarrow>
   gather max_retries env 0 urls \<lparr>processed_urls = 0, failed_urls = 0, trace = []\<rparr> = (None, s)"
  by (auto simp: crawl_parallel_def finally_close_def
      split: option.splits if_splits prod.splits outcome.splits)

lemma crawl_parallel_returns:
  assumes "quiet_run w" and "0 \<le> max_concurrent" and "1 \<le> max_concurrent \<or> urls = []"
    and "gather max_retries env 0 urls \<lparr>processed_urls = 0, failed_urls = 0, trace = []\<rparr> = (None, s)"
    and "end_time w \<noteq> start_time w \<or> processed_urls s = 0"
  shows "crawl_parallel w env urls max_concurrent max_retries = Returned s"
proof -
  have c: "\<not> max_concurrent < 0" "\<not> (max_concurrent = 0 \<and> urls \<noteq> [])"
    using assms(2,3) by auto
  have t: "top_raises w 305 = None" using assms(1) by (simp add: quiet_run_def)
  show ?thesis
    unfolding crawl_parallel_def first_raise_quiet [OF assms(1)]
    using c t assms(4) summary_quiet [OF assms(1,5)]
    by (simp add: finally_close_def)
qed

text \<open>
  Where the two readings of the clock are equal and a page was processed, line 293
  divides by zero after the tasks have ended, and no statistics are returned.
\<close>

lemma crawl_parallel_equal_clock_readings:
  "crawl_parallel \<lparr>start_time = 0, end_time = 0, top_raises = (\<lambda>l. None)\<rparr>
      (\<lambda>i. \<lparr>arun = (\<lambda>r. Inr \<lparr>success = True, raw_markdown = ''# p'', error_message = []\<rparr>),
             store = (\<lambda>r. Inr ()), print_raises = (\<lambda>r l. None)\<rparr>)
      [''https://a.test/p''] 5 3
     = Raised ZeroDivisionError"
  by (simp add: crawl_parallel_def finally_close_def summary_def process_url_def attempt_def
      try_body_def on_exception_def print_then_def Let_def upt_conv_Cons)

text \<open>
  Claim C1, amended. Let \<^verbatim>\<open>max_retries\<close> be at least 1, and let no store and no print of a
  task raise. For every list of URLs and every behaviour of the fetcher: whenever
  \<^verbatim>\<open>crawl_parallel\<close> returns, \<^verbatim>\<open>processed_urls\<close> and \<^verbatim>\<open>failed_urls\<close> add up to the number of
  URLs; the same holds under every schedule of the tasks, in every state where all of them
  are done; and \<^verbatim>\<open>crawl_parallel\<close> does return, with the state in which a run of the tasks
  ends, when \<^verbatim>\<open>max_concurrent\<close> is at least 1, no line of \<^verbatim>\<open>crawl_parallel\<close> itself raises,
  the fetcher raises subclasses of \<^verbatim>\<open>Exception\<close> only and the two readings of the clock
  differ. For the empty list, whatever \<^verbatim>\<open>max_retries\<close> and the behaviours are, every return
  has both counters at 0, and \<^verbatim>\<open>crawl_parallel\<close> returns when \<^verbatim>\<open>max_concurrent\<close> is at least
  0 and no line of its own raises.
\<close>

theorem crawl_parallel_counts:
  assumes "1 \<le> max_retries"
    and "\<forall>i<length urls. (\<forall>r. store (env i) r = Inr ()) \<and> quiet (env i)"
  shows "(\<forall>s. crawl_parallel w env urls max_concurrent max_retries = Returned s
               \<longrightarrow> processed_urls s + failed_urls s = length urls)
         \<and> (\<forall>p0 p. crawl_init max_concurrent urls = Inr p0
               \<longrightarrow> (step max_retries env urls)\<^sup>*\<^sup>* p0 p
               \<longrightarrow> list_all (\<lambda>c. c = Done) (pcs p)
               \<longrightarrow> processed_urls (shared p) + failed_urls (shared p) = length urls)
         \<and> (1 \<le> max_concurrent \<and> quiet_run w \<and> end_time w \<noteq> start_time w
              \<and> (\<forall>i<length urls. \<forall>r e. arun (env i) r = Inl e \<longrightarrow> is_exception e)
            \<longrightarrow> (\<exists>s p0. crawl_parallel w env urls max_concurrent max_retries = Returned s
                   \<and> crawl_init max_concurrent urls = Inr p0
                   \<and> (step max_retries env urls)\<^sup>*\<^sup>* p0
                         (p0\<lparr>pcs := replicate (length urls) Done, shared := s\<rparr>)))
         \<and> (\<forall>s. crawl_parallel w' env' [] max_concurrent' max_retries' = Returned s
               \<longrightarrow> processed_urls s = 0 \<and> failed_urls s = 0)
         \<and> (0 \<le> max_concurrent' \<and> quiet_run w'
            \<longrightarrow> crawl_parallel w' env' [] max_concurrent' max_retries'
                  = Returned \<lparr>processed_urls = 0, failed_urls = 0, trace = []\<rparr>)"
proof -
  let ?s0 = "\<lparr>processed_urls = 0, failed_urls = 0, trace = []\<rparr>"
  have h: "\<forall>k<length urls. (\<forall>r. store (env (0 + k)) r = Inr ()) \<and> quiet (env (0 + k))"
    using assms(2) by simp
  have 1: "\<forall>s. crawl_parallel w env urls max_concurrent max_retries = Returned s
               \<longrightarrow> processed_urls s + failed_urls s = length urls"
  proof (intro allI impI)
    fix s
    assume "crawl_parallel w env urls max_concurrent max_retries = Returned s"
    then have "gather max_retries env 0 urls ?s0 = (None, s)" by (rule crawl_parallel_returned)
    from gather_counts [OF assms(1) h this]
    show "processed_urls s + failed_urls s = length urls" by simp
  qed
  have 2: "\<forall>p0 p. crawl_init max_concurrent urls = Inr p0
               \<longrightarrow> (step max_retries env urls)\<^sup>*\<^sup>* p0 p
               \<longrightarrow> list_all (\<lambda>c. c = Done) (pcs p)
               \<longrightarrow> processed_urls (shared p) + failed_urls (shared p) = length urls"
    using interleaved_counts(2) [OF assms] by blast
  have 3: "1 \<le> max_concurrent \<and> quiet_run w \<and> end_time w \<noteq> start_time w
              \<and> (\<forall>i<length urls. \<forall>r e. arun (env i) r = Inl e \<longrightarrow> is_exception e)
            \<longrightarrow> (\<exists>s p0. crawl_parallel w env urls max_concurrent max_retries = Returned s
                   \<and> crawl_init max_concurrent urls = Inr p0
                   \<and> (step max_retries env urls)\<^sup>*\<^sup>* p0
                         (p0\<lparr>pcs := replicate (length urls) Done, shared := s\<rparr>))"
  proof
    assume a: "1 \<le> max_concurrent \<and> quiet_run w \<and> end_time w \<noteq> start_time w
              \<and> (\<forall>i<length urls. \<forall>r e. arun (env i) r = Inl e \<longrightarrow> is_exception e)"
    then have c: "1 \<le> max_concurrent" and q: "quiet_run w" and t: "end_time w \<noteq> start_time w"
      and f: "\<forall>i<length urls. \<forall>r e. arun (env i) r = Inl e \<longrightarrow> is_exception e"
      by simp_all
    have "\<forall>k<length urls. (\<forall>r. store (env (0 + k)) r = Inr ()) \<and> quiet (env (0 + k))
        \<and> (\<forall>r e. arun (env (0 + k)) r = Inl e \<longrightarrow> is_exception e)"
      using assms(2) f by simp
    then have "fst (gather max_retries env 0 urls ?s0) = None" by (rule gather_no_raise)
    then obtain s where g: "gather max_retries env 0 urls ?s0 = (None, s)"
      by (cases "gather max_retries env 0 urls ?s0") simp
    have r: "crawl_parallel w env urls max_concurrent max_retries = Returned s"
      using q _ _ g by (rule crawl_parallel_returns) (use c t in simp_all)
    from c obtain p0 where p0: "crawl_init max_concurrent urls = Inr p0"
      by (simp add: crawl_init_def)
    from sequential_schedule_is_run [OF c p0 g] r p0
    show "\<exists>s p0. crawl_parallel w env urls max_concurrent max_retries = Returned s
               \<and> crawl_init max_concurrent urls = Inr p0
               \<and> (step max_retries env urls)\<^sup>*\<^sup>* p0
                     (p0\<lparr>pcs := replicate (length urls) Done, shared := s\<rparr>)"
      by blast
  qed
  have 4: "\<forall>s. crawl_parallel w' env' [] max_concurrent' max_retries' = Returned s
               \<longrightarrow> processed_urls s = 0 \<and> failed_urls s = 0"
  proof (intro allI impI)
    fix s
    assume "crawl_parallel w' env' [] max_concurrent' max_retries' = Returned s"
    then have "gather max_retries' env' 0 [] ?s0 = (None, s)" by (rule crawl_parallel_returned)
    then show "processed_urls s = 0 \<and> failed_urls s = 0" by auto
  qed
  have 5: "0 \<le> max_concurrent' \<and> quiet_run w'
            \<longrightarrow> crawl_parallel w' env' [] max_concurrent' max_retries' = Returned ?s0"
  proof
    assume a: "0 \<le> max_concurrent' \<and> quiet_run w'"
    show "crawl_parallel w' env' [] max_concurrent' max_retries' = Returned ?s0"
      by (rule crawl_parallel_returns) (use a in simp_all)
  qed
  from 1 2 3 4 5 show ?thesis by (intro conjI)
qed

theorem crawl_parallel_counts_witness:
  "(\<exists>s. crawl_parallel \<lparr>start_time = 0, end_time = 7000000, top_raises = (\<lambda>l. None)\<rparr>
          (\<lambda>i. \<lparr>arun = (\<lambda>r. if i = 0 then Inl ConnectionError
                              else Inr \<lparr>success = True, raw_markdown = ''# p'', error_message = []\<rparr>),
                 store = (\<lambda>r. Inr ()), print_raises = (\<lambda>r l. None)\<rparr>)
          [''https://a.test/p'', ''https://a.test/q''] 5 2 = Returned s
        \<and> processed_urls s + failed_urls s = 2)
   \<and> crawl_parallel \<lparr>start_time = 0, end_time = 7000000, top_raises = (\<lambda>l. None)\<rparr>
        (\<lambda>i. \<lparr>arun = (\<lambda>r. if i = 0 then Inl ConnectionError
                            else Inr \<lparr>success = True, raw_markdown = ''# p'', error_message = []\<rparr>),
               store = (\<lambda>r. Inr ()), print_raises = (\<lambda>r l. None)\<rparr>)
        [''https://a.test/p'', ''https://a.test/q''] 5 2
     = Returned \<lparr>processed_urls = 1, failed_urls = 1,
        trace = [Arun ''https://a.test/p'', Sleep 2, Arun ''https://a.test/p'',
                 Arun ''https://a.test/q'', Store ''https://a.test/q'' ''# p'']\<rparr>"
proof -
  let ?w = "\<lparr>start_time = 0, end_time = 7000000, top_raises = (\<lambda>l::nat. None :: exn option)\<rparr>"
  let ?env = "\<lambda>i::nat. \<lparr>arun = (\<lambda>r::nat. if i = 0 then Inl ConnectionError
                          else Inr \<lparr>success = True, raw_markdown = ''# p'', error_message = []\<rparr>),
             store = (\<lambda>r::nat. Inr () :: exn + unit),
             print_raises = (\<lambda>(r::nat) (l::nat). None :: exn option)\<rparr>"
  let ?urls = "[''https://a.test/p'', ''https://a.test/q'']"
  have h: "\<forall>i<length ?urls. (\<forall>r. store (?env i) r = Inr ()) \<and> quiet (?env i)"
    by (simp add: quiet_def)
  have m: "(1::int) \<le> 2" by simp
  have c: "(1::int) \<le> 5 \<and> quiet_run ?w \<and> end_time ?w \<noteq> start_time ?w
      \<and> (\<forall>i<length ?urls. \<forall>r e. arun (?env i) r = Inl e \<longrightarrow> is_exception e)"
    by (simp add: quiet_run_def)
  note t = crawl_parallel_counts [of 2 ?urls ?env ?w 5, OF m h]
  from t c obtain s where s: "crawl_parallel ?w ?env ?urls 5 2 = Returned s" by blast
  with t have "processed_urls s + failed_urls s = length ?urls" by blast
  with s have 1: "\<exists>s. crawl_parallel ?w ?env ?urls 5 2 = Returned s
      \<and> processed_urls s + failed_urls s = 2" by simp
  have 2: "crawl_parallel ?w ?env ?urls 5 2
     = Returned \<lparr>processed_urls = 1, failed_urls = 1,
        trace = [Arun ''https://a.test/p'', Sleep 2, Arun ''https://a.test/p'',
                 Arun ''https://a.test/q'', Store ''https://a.test/q'' ''# p'']\<rparr>"
    by (simp add: crawl_parallel_def finally_close_def summary_def process_url_def attempt_def
        try_body_def on_exception_def print_then_def Let_def upt_conv_Cons)
  from 1 2 show ?thesis by (rule conjI)
qed

section \<open>Reading sitemaps\<close>

lemma fetch_root_error_iff:
  "isl (fetch_root net sitemap_url) \<longleftrightarrow>
     (sitemap_url = None
      \<or> (\<exists>u. sitemap_url = Some u
            \<and> (isl (requests_get net u)
                \<or> (\<exists>r. requests_get net u = Inr r
                      \<and> (400 \<le> status_code r \<and> status_code r < 600
                          \<or> isl (fromstring net (body r)))))))"
  by (auto simp: fetch_root_def raise_for_status_def split: option.splits sum.splits)

lemma fetch_root_tame: "tame net \<Longrightarrow> fetch_root net sitemap_url = Inl e \<Longrightarrow> is_exception e"
  by (auto simp: fetch_root_def raise_for_status_def tame_def
      split: option.splits sum.splits if_splits)

lemma except_sitemap_quiet:
  "quiet_net net \<Longrightarrow> is_exception e \<Longrightarrow> except_sitemap net sitemap_url e = Inr []"
  by (simp add: except_sitemap_def quiet_net_def)

text \<open>Where every call returns, the loop of lines 140 to 142 is a concatenation.\<close>

lemma extend_all_returns:
  "(\<forall>c\<in>set cs. \<exists>urls. fst (get c) = Inr urls) \<Longrightarrow>
   extend_all get cs =
     (Inr (concat (map (\<lambda>c. returned (get c)) cs)), concat (map (\<lambda>c. snd (get c)) cs))"
proof (induction cs)
  case Nil
  then show ?case by simp
next
  case (Cons c cs)
  then obtain urls where u: "fst (get c) = Inr urls" by auto
  then obtain log where g: "get c = (Inr urls, log)" by (cases "get c") simp
  from Cons have "extend_all get cs =
     (Inr (concat (map (\<lambda>c. returned (get c)) cs)), concat (map (\<lambda>c. snd (get c)) cs))"
    by simp
  with g show ?case by (simp add: returned_def)
qed

lemma get_urls_from_sitemap_index:
  assumes "fetch_root net sitemap_url = Inr root" and "endswith (tag root) ''sitemapindex''"
    and "print_fails net 134 sitemap_url = None" and "print_fails net 137 sitemap_url = None"
    and "\<forall>child\<in>set (map elem_text (findall_loc root)).
           \<exists>urls. fst (get_urls_from_sitemap depth net child) = Inr urls"
  shows "get_urls_from_sitemap (Suc depth) net sitemap_url =
     (Inr (concat (map (\<lambda>child. returned (get_urls_from_sitemap depth net child))
                     (map elem_text (findall_loc root)))),
      sitemap_url # concat (map (\<lambda>child. snd (get_urls_from_sitemap depth net child))
                     (map elem_text (findall_loc root))))"
  using assms(1-4) extend_all_returns [OF assms(5)]
  by (simp add: try_sitemap_def Let_def)

lemma get_urls_from_sitemap_urlset:
  assumes "fetch_root net sitemap_url = Inr root" and "\<not> endswith (tag root) ''sitemapindex''"
    and "print_fails net 146 sitemap_url = None"
  shows "get_urls_from_sitemap (Suc depth) net sitemap_url =
     (Inr (map elem_text (findall_loc root)), [sitemap_url])"
  using assms by (simp add: try_sitemap_def Let_def)

lemma get_urls_from_sitemap_error:
  assumes "quiet_net net" and "tame net" and "fetch_root net sitemap_url = Inl e"
  shows "fst (get_urls_from_sitemap depth net sitemap_url) = Inr []"
proof (cases depth)
  case 0
  then show ?thesis using assms(1) by (simp add: except_sitemap_quiet)
next
  case (Suc d)
  from fetch_root_tame [OF assms(2,3)] have "is_exception e" .
  with Suc assms(1,3) show ?thesis by (simp add: try_sitemap_def except_sitemap_quiet)
qed

text \<open>
  No exception leaves \<^verbatim>\<open>get_urls_from_sitemap\<close> when no print raises and the HTTP layer and
  the parser raise subclasses of \<^verbatim>\<open>Exception\<close> only.
\<close>

lemma get_urls_from_sitemap_returns:
  assumes "quiet_net net" and "tame net"
  shows "\<exists>urls. fst (get_urls_from_sitemap depth net sitemap_url) = Inr urls"
proof (induction depth arbitrary: sitemap_url)
  case 0
  then show ?case using assms(1) by (simp add: except_sitemap_quiet)
next
  case (Suc depth)
  have q: "print_fails net l u = None" for l u using assms(1) by (simp add: quiet_net_def)
  show ?case
  proof (cases "fetch_root net sitemap_url")
    case (Inl e)
    from get_urls_from_sitemap_error [OF assms Inl] show ?thesis by blast
  next
    case (Inr root)
    show ?thesis
    proof (cases "endswith (tag root) ''sitemapindex''")
      case True
      have "\<forall>child\<in>set (map elem_text (findall_loc root)).
           \<exists>urls. fst (get_urls_from_sitemap depth net child) = Inr urls"
        using Suc.IH by blast
      from get_urls_from_sitemap_index [OF Inr True q q this] show ?thesis by simp
    next
      case False
      from get_urls_from_sitemap_urlset [OF Inr False q] show ?thesis by simp
    qed
  qed
qed

lemma concat_map_filter_nonempty:
  "(\<And>x. x \<in> set xs \<Longrightarrow> \<not> P x \<Longrightarrow> f x = []) \<Longrightarrow>
   concat (map f (filter P xs)) = concat (map f xs)"
  by (induction xs) auto

text \<open>
  Claim C5, as stated, fails where the print of line 134 raises: the index is fetched and
  parsed and each of its three sitemaps yields a list (of 0, 2 and 1 URLs), but the
  exception of the print, raised inside the \<^verbatim>\<open>try\<close>, is caught by line 149 and the call
  returns the empty list without reading any of the three.
\<close>

theorem get_urls_from_sitemap_kinds_refuted:
  "fetch_root web_print_134 (Some ''https://a.test/sitemap.xml'') = Inr small_index
   \<and> endswith (tag small_index) ''sitemapindex''
   \<and> map elem_text (findall_loc small_index)
        = [Some ''https://a.test/1.xml'', Some ''https://a.test/2.xml'', Some ''https://a.test/3.xml'']
   \<and> get_urls_from_sitemap 1 web_print_134 (Some ''https://a.test/1.xml'')
        = (Inr [], [Some ''https://a.test/1.xml''])
   \<and> get_urls_from_sitemap 1 web_print_134 (Some ''https://a.test/2.xml'')
        = (Inr [Some ''https://a.test/p'', Some ''https://a.test/q''], [Some ''https://a.test/2.xml''])
   \<and> get_urls_from_sitemap 1 web_print_134 (Some ''https://a.test/3.xml'')
        = (Inr [Some ''https://a.test/r''], [Some ''https://a.test/3.xml''])
   \<and> get_urls_from_sitemap 2 web_print_134 (Some ''https://a.test/sitemap.xml'')
        = (Inr [], [Some ''https://a.test/sitemap.xml''])"
  by code_simp

text \<open>
  Claim C5, amended. Let the document at \<open>sitemap_url\<close> be fetched and parsed, in a call
  that fits under the recursion limit. If the root tag ends with \<open>sitemapindex\<close>, the
  prints of lines 134 and 137 raise nothing and the call for each \<^verbatim>\<open>loc\<close> text of the
  document returns a list, the result is the concatenation of these lists in document
  order, so its length is the sum of their lengths. If the root tag does not end with
  \<open>sitemapindex\<close> and the print of line 146 raises nothing, the result is the list of the
  \<^verbatim>\<open>loc\<close> texts of the document itself.
\<close>

theorem get_urls_from_sitemap_kinds:
  assumes "fetch_root net sitemap_url = Inr root"
  shows "let children = map elem_text (findall_loc root)
         in (endswith (tag root) ''sitemapindex''
               \<and> print_fails net 134 sitemap_url = None \<and> print_fails net 137 sitemap_url = None
               \<and> (\<forall>child\<in>set children.
                     \<exists>urls. fst (get_urls_from_sitemap depth net child) = Inr urls)
             \<longrightarrow> fst (get_urls_from_sitemap (Suc depth) net sitemap_url)
                   = Inr (concat (map (\<lambda>child. returned (get_urls_from_sitemap depth net child))
                                    children))
                 \<and> length (returned (get_urls_from_sitemap (Suc depth) net sitemap_url))
                   = sum_list (map (\<lambda>child. length (returned (get_urls_from_sitemap depth net child)))
                                 children))
            \<and> (\<not> endswith (tag root) ''sitemapindex'' \<and> print_fails net 146 sitemap_url = None
               \<longrightarrow> fst (get_urls_from_sitemap (Suc depth) net sitemap_url) = Inr children)"
proof -
  let ?cs = "map elem_text (findall_loc root)"
  let ?get = "get_urls_from_sitemap depth net"
  have 1: "fst (get_urls_from_sitemap (Suc depth) net sitemap_url)
             = Inr (concat (map (\<lambda>child. returned (?get child)) ?cs))
           \<and> length (returned (get_urls_from_sitemap (Suc depth) net sitemap_url))
             = sum_list (map (\<lambda>child. length (returned (?get child))) ?cs)"
    if "endswith (tag root) ''sitemapindex''
        \<and> print_fails net 134 sitemap_url = None \<and> print_fails net 137 sitemap_url = None
        \<and> (\<forall>child\<in>set ?cs. \<exists>urls. fst (?get child) = Inr urls)"
  proof -
    from that have i: "endswith (tag root) ''sitemapindex''"
      and p: "print_fails net 134 sitemap_url = None" "print_fails net 137 sitemap_url = None"
      and c: "\<forall>child\<in>set ?cs. \<exists>urls. fst (?get child) = Inr urls"
      by simp_all
    note e = get_urls_from_sitemap_index [OF assms i p c]
    have l: "length (concat (map (\<lambda>child. returned (?get child)) ?cs))
        = sum_list (map (\<lambda>child. length (returned (?get child))) ?cs)"
      by (simp add: length_concat comp_def)
    show ?thesis unfolding e using l by (simp add: returned_def)
  qed
  have 2: "fst (get_urls_from_sitemap (Suc depth) net sitemap_url) = Inr ?cs"
    if "\<not> endswith (tag root) ''sitemapindex'' \<and> print_fails net 146 sitemap_url = None"
  proof -
    from that have n: "\<not> endswith (tag root) ''sitemapindex''"
      and p: "print_fails net 146 sitemap_url = None"
      by simp_all
    from get_urls_from_sitemap_urlset [OF assms n p] show ?thesis by simp
  qed
  show ?thesis unfolding Let_def using 1 2 by blast
qed

theorem get_urls_from_sitemap_kinds_witness:
  "fetch_root small_web (Some ''https://a.test/sitemap.xml'') = Inr small_index
   \<and> endswith (tag small_index) ''sitemapindex''
   \<and> map elem_text (findall_loc small_index)
        = [Some ''https://a.test/1.xml'', Some ''https://a.test/2.xml'', Some ''https://a.test/3.xml'']
   \<and> get_urls_from_sitemap 1 small_web (Some ''https://a.test/1.xml'')
        = (Inr [], [Some ''https://a.test/1.xml''])
   \<and> get_urls_from_sitemap 1 small_web (Some ''https://a.test/2.xml'')
        = (Inr [Some ''https://a.test/p'', Some ''https://a.test/q''], [Some ''https://a.test/2.xml''])
   \<and> get_urls_from_sitemap 1 small_web (Some ''https://a.test/3.xml'')
        = (Inr [Some ''https://a.test/r''], [Some ''https://a.test/3.xml''])
   \<and> fst (get_urls_from_sitemap (Suc 1) small_web (Some ''https://a.test/sitemap.xml''))
        = Inr [Some ''https://a.test/p'', Some ''https://a.test/q'', Some ''https://a.test/r'']"
proof -
  have f: "fetch_root small_web (Some ''https://a.test/sitemap.xml'') = Inr small_index"
    by code_simp
  have i: "endswith (tag small_index) ''sitemapindex''" by code_simp
  have c: "map elem_text (findall_loc small_index)
        = [Some ''https://a.test/1.xml'', Some ''https://a.test/2.xml'', Some ''https://a.test/3.xml'']"
    by code_simp
  have p: "print_fails small_web 134 (Some ''https://a.test/sitemap.xml'') = None"
    "print_fails small_web 137 (Some ''https://a.test/sitemap.xml'') = None"
    by (simp_all add: small_web_def)
  have 1: "get_urls_from_sitemap 1 small_web (Some ''https://a.test/1.xml'')
        = (Inr [], [Some ''https://a.test/1.xml''])"
    by code_simp
  have 2: "get_urls_from_sitemap 1 small_web (Some ''https://a.test/2.xml'')
        = (Inr [Some ''https://a.test/p'', Some ''https://a.test/q''], [Some ''https://a.test/2.xml''])"
    by code_simp
  have 3: "get_urls_from_sitemap 1 small_web (Some ''https://a.test/3.xml'')
        = (Inr [Some ''https://a.test/r''], [Some ''https://a.test/3.xml''])"
    by code_simp
  have r: "returned (get_urls_from_sitemap 1 small_web (Some ''https://a.test/1.xml'')) = []"
    "returned (get_urls_from_sitemap 1 small_web (Some ''https://a.test/2.xml''))
       = [Some ''https://a.test/p'', Some ''https://a.test/q'']"
    "returned (get_urls_from_sitemap 1 small_web (Some ''https://a.test/3.xml''))
       = [Some ''https://a.test/r'']"
    unfolding 1 2 3 by (simp_all add: returned_def)
  have a: "\<forall>child\<in>set (map elem_text (findall_loc small_index)).
      \<exists>urls. fst (get_urls_from_sitemap 1 small_web child) = Inr urls"
    unfolding c using 1 2 3 by simp
  from get_urls_from_sitemap_kinds [OF f, of 1] i p a
  have "fst (get_urls_from_sitemap (Suc 1) small_web (Some ''https://a.test/sitemap.xml''))
          = Inr (concat (map (\<lambda>child. returned (get_urls_from_sitemap 1 small_web child))
                           (map elem_text (findall_loc small_index))))"
    unfolding Let_def by blast
  then have "fst (get_urls_from_sitemap (Suc 1) small_web (Some ''https://a.test/sitemap.xml''))
        = Inr [Some ''https://a.test/p'', Some ''https://a.test/q'', Some ''https://a.test/r'']"
    unfolding c by (simp only: list.map concat.simps r append_Nil append_Cons append_Nil2)
  with f i c 1 2 3 show ?thesis by (intro conjI)
qed

text \<open>
  Claim C7, as stated, fails at two inputs. A status outside 200 to 299 that
  \<^verbatim>\<open>raise_for_status\<close> does not raise on is no error: the body of a response with the
  status 300 is parsed and its URLs are returned. And where the print of line 150 raises,
  which stands in the handler outside the \<^verbatim>\<open>try\<close>, its exception leaves the call for the
  sitemap that answered 404; inside an index it ends the loop of lines 140 to 142, so the
  index returns the empty list and the sitemaps after the failing one are never requested.
\<close>

theorem get_urls_from_sitemap_errors_refuted:
  "requests_get small_web ''https://a.test/3.xml'' = Inr \<lparr>status_code = 300, body = ''one''\<rparr>
   \<and> get_urls_from_sitemap 1 small_web (Some ''https://a.test/3.xml'')
        = (Inr [Some ''https://a.test/r''], [Some ''https://a.test/3.xml''])
   \<and> requests_get web_print_150 ''https://a.test/1.xml'' = Inr \<lparr>status_code = 404, body = ''two''\<rparr>
   \<and> get_urls_from_sitemap 1 web_print_150 (Some ''https://a.test/1.xml'')
        = (Inl UnicodeEncodeError, [Some ''https://a.test/1.xml''])
   \<and> get_urls_from_sitemap 1 web_print_150 (Some ''https://a.test/2.xml'')
        = (Inr [Some ''https://a.test/p'', Some ''https://a.test/q''], [Some ''https://a.test/2.xml''])
   \<and> get_urls_from_sitemap 2 web_print_150 (Some ''https://a.test/sitemap.xml'')
        = (Inr [], [Some ''https://a.test/sitemap.xml'', Some ''https://a.test/1.xml''])"
  by code_simp

text \<open>
  Claim C7, amended. Let no print raise, and let the HTTP layer and the parser raise
  subclasses of \<^verbatim>\<open>Exception\<close> only. Then no exception leaves \<^verbatim>\<open>get_urls_from_sitemap\<close>, at
  whatever depth it stands: it returns a list. Something raises inside the \<^verbatim>\<open>try\<close> before
  the document is read exactly when the URL is \<^verbatim>\<open>None\<close>, the request raises, the status is
  between 400 and 599, or the parser raises; then the call returns the empty list. In an
  index, the result is the concatenation of the results of the sitemaps that met no such
  error, in document order: the others contribute nothing.
\<close>

theorem get_urls_from_sitemap_errors:
  assumes "quiet_net net" and "tame net"
  shows "(\<exists>urls. fst (get_urls_from_sitemap depth net sitemap_url) = Inr urls)
   \<and> (isl (fetch_root net sitemap_url) \<longleftrightarrow>
        (sitemap_url = None
         \<or> (\<exists>u. sitemap_url = Some u
               \<and> (isl (requests_get net u)
                   \<or> (\<exists>r. requests_get net u = Inr r
                         \<and> (400 \<le> status_code r \<and> status_code r < 600
                             \<or> isl (fromstring net (body r))))))))
   \<and> (isl (fetch_root net sitemap_url) \<longrightarrow>
        fst (get_urls_from_sitemap depth net sitemap_url) = Inr [])
   \<and> (\<forall>root. fetch_root net sitemap_url = Inr root \<and> endswith (tag root) ''sitemapindex'' \<longrightarrow>
         fst (get_urls_from_sitemap (Suc depth) net sitemap_url)
           = Inr (concat (map (\<lambda>child. returned (get_urls_from_sitemap depth net child))
               (filter (\<lambda>child. \<not> isl (fetch_root net child)) (map elem_text (findall_loc root))))))"
proof -
  have q: "print_fails net l u = None" for l u using assms(1) by (simp add: quiet_net_def)
  have 0: "\<exists>urls. fst (get_urls_from_sitemap depth net sitemap_url) = Inr urls"
    using assms by (rule get_urls_from_sitemap_returns)
  have 1: "isl (fetch_root net sitemap_url) \<longrightarrow>
        fst (get_urls_from_sitemap depth net sitemap_url) = Inr []"
    using get_urls_from_sitemap_error [OF assms, of sitemap_url _ depth]
    by (cases "fetch_root net sitemap_url") simp_all
  have 2: "fst (get_urls_from_sitemap (Suc depth) net sitemap_url)
           = Inr (concat (map (\<lambda>child. returned (get_urls_from_sitemap depth net child))
               (filter (\<lambda>child. \<not> isl (fetch_root net child)) (map elem_text (findall_loc root)))))"
    if f: "fetch_root net sitemap_url = Inr root" and i: "endswith (tag root) ''sitemapindex''" for root
  proof -
    have "concat (map (\<lambda>child. returned (get_urls_from_sitemap depth net child))
               (filter (\<lambda>child. \<not> isl (fetch_root net child)) (map elem_text (findall_loc root))))
          = concat (map (\<lambda>child. returned (get_urls_from_sitemap depth net child))
               (map elem_text (findall_loc root)))"
    proof (rule concat_map_filter_nonempty)
      fix x
      assume "\<not> \<not> isl (fetch_root net x)"
      then obtain e where "fetch_root net x = Inl e" by (cases "fetch_root net x") auto
      from get_urls_from_sitemap_error [OF assms this, of depth]
      show "returned (get_urls_from_sitemap depth net x) = []" by (simp add: returned_def)
    qed
    moreover have "\<forall>child\<in>set (map elem_text (findall_loc root)).
           \<exists>urls. fst (get_urls_from_sitemap depth net child) = Inr urls"
      using get_urls_from_sitemap_returns [OF assms] by blast
    from get_urls_from_sitemap_index [OF f i q q this]
    have "fst (get_urls_from_sitemap (Suc depth) net sitemap_url)
        = Inr (concat (map (\<lambda>child. returned (get_urls_from_sitemap depth net child))
               (map elem_text (findall_loc root))))"
      by simp
    ultimately show ?thesis by (simp only:)
  qed
  from 0 fetch_root_error_iff [of net sitemap_url] 1 2 show ?thesis by blast
qed

lemma quiet_small_web: "quiet_net small_web"
  by (simp add: quiet_net_def small_web_def)

lemma tame_small_web: "tame small_web"
  by (simp add: tame_def small_web_def)

theorem get_urls_from_sitemap_errors_witness:
  "isl (fetch_root small_web (Some ''https://a.test/1.xml''))
   \<and> fst (get_urls_from_sitemap 7 small_web (Some ''https://a.test/1.xml'')) = Inr []
   \<and> fst (get_urls_from_sitemap (Suc 1) small_web (Some ''https://a.test/sitemap.xml''))
        = Inr [Some ''https://a.test/p'', Some ''https://a.test/q'', Some ''https://a.test/r'']"
proof -
  note t = get_urls_from_sitemap_errors [OF quiet_small_web tame_small_web,
      of 7 "Some ''https://a.test/1.xml''"]
  note u = get_urls_from_sitemap_errors [OF quiet_small_web tame_small_web,
      of 1 "Some ''https://a.test/sitemap.xml''"]
  have r: "requests_get small_web ''https://a.test/1.xml'' = Inr \<lparr>status_code = 404, body = ''two''\<rparr>"
    by code_simp
  have e: "isl (fetch_root small_web (Some ''https://a.test/1.xml''))"
    using t r by auto
  with t have z: "fst (get_urls_from_sitemap 7 small_web (Some ''https://a.test/1.xml'')) = Inr []"
    by blast
  have f: "fetch_root small_web (Some ''https://a.test/sitemap.xml'') = Inr small_index"
    by code_simp
  have i: "endswith (tag small_index) ''sitemapindex''" by code_simp
  have c: "filter (\<lambda>child. \<not> isl (fetch_root small_web child)) (map elem_text (findall_loc small_index))
        = [Some ''https://a.test/2.xml'', Some ''https://a.test/3.xml'']"
    by code_simp
  have 2: "returned (get_urls_from_sitemap 1 small_web (Some ''https://a.test/2.xml''))
        = [Some ''https://a.test/p'', Some ''https://a.test/q'']"
    by code_simp
  have 3: "returned (get_urls_from_sitemap 1 small_web (Some ''https://a.test/3.xml''))
        = [Some ''https://a.test/r'']"
    by code_simp
  from u f i have "fst (get_urls_from_sitemap (Suc 1) small_web (Some ''https://a.test/sitemap.xml''))
      = Inr (concat (map (\<lambda>child. returned (get_urls_from_sitemap 1 small_web child))
               (filter (\<lambda>child. \<not> isl (fetch_root small_web child)) (map elem_text (findall_loc small_index)))))"
    by blast
  then have "fst (get_urls_from_sitemap (Suc 1) small_web (Some ''https://a.test/sitemap.xml''))
        = Inr [Some ''https://a.test/p'', Some ''https://a.test/q'', Some ''https://a.test/r'']"
    unfolding c by (simp only: list.map concat.simps 2 3 append_Nil append_Cons append_Nil2)
  with e z show ?thesis by (intro conjI)
qed

section \<open>Finding the sitemap of a site\<close>

lemma lower_char_of_colon: "lower_char CHR '':'' = CHR '':''"
  by code_simp

lemma colon_code: "(of_char CHR '':'' :: nat) = 58"
  by simp

lemma lower_char_colon: "lower_char c = CHR '':'' \<Longrightarrow> c = CHR '':''"
proof (rule ccontr)
  define n where "n = (of_char c :: nat)"
  assume a: "lower_char c = CHR '':''" and ne: "c \<noteq> CHR '':''"
  have l: "lower_char c = (if (65 \<le> n \<and> n \<le> 90) \<or> (192 \<le> n \<and> n \<le> 222 \<and> n \<noteq> 215)
         then char_of (n + 32) else c)"
    unfolding lower_char_def Let_def n_def ..
  have cond: "(65 \<le> n \<and> n \<le> 90) \<or> (192 \<le> n \<and> n \<le> 222 \<and> n \<noteq> 215)"
  proof (rule ccontr)
    assume "\<not> ?thesis"
    with l have "lower_char c = c" by (simp only: if_False)
    with a ne show False by simp
  qed
  with l have "lower_char c = char_of (n + 32)" by (simp only: if_True)
  with a have e: "char_of (n + 32) = CHR '':''" by (simp only:)
  have "(of_char (char_of (n + 32)) :: nat) = (n + 32) mod 256" by (rule of_char_of)
  with e have "(of_char CHR '':'' :: nat) = (n + 32) mod 256" by (simp only:)
  then have "(n + 32) mod 256 = 58" unfolding colon_code by (rule sym)
  moreover from cond have "n + 32 < 256" by linarith
  ultimately have "n + 32 = 58" by (simp only: mod_less)
  with cond show False by linarith
qed


lemma prefix_map_Cons:
  "prefix (x # xs) (map f l) \<longleftrightarrow> (\<exists>c cs. l = c # cs \<and> f c = x \<and> prefix xs (map f cs))"
  by (cases l) auto

lemma after_first_colon_directive:
  assumes "startswith (lower line) ''sitemap:''"
  shows "after_first_colon line = Inr (drop 8 line)"
proof -
  from assms obtain c0 c1 c2 c3 c4 c5 c6 c7 rest where
    l: "line = c0 # c1 # c2 # c3 # c4 # c5 # c6 # c7 # rest"
    and c: "lower_char c0 = CHR ''s''" "lower_char c1 = CHR ''i''" "lower_char c2 = CHR ''t''"
      "lower_char c3 = CHR ''e''" "lower_char c4 = CHR ''m''" "lower_char c5 = CHR ''a''"
      "lower_char c6 = CHR ''p''" "lower_char c7 = CHR '':''"
    unfolding startswith_def lower_def prefix_map_Cons by auto
  from c(1-7) have n: "c0 \<noteq> CHR '':''" "c1 \<noteq> CHR '':''" "c2 \<noteq> CHR '':''" "c3 \<noteq> CHR '':''"
    "c4 \<noteq> CHR '':''" "c5 \<noteq> CHR '':''" "c6 \<noteq> CHR '':''"
    using lower_char_of_colon by auto
  from c(8) have "c7 = CHR '':''" by (rule lower_char_colon)
  with n l show ?thesis by (simp add: after_first_colon_def)
qed


text \<open>
  The loop over robots.txt where no exception leaves it: the first directive whose sitemap
  gives a URL wins, and the requests sent are those for the directives up to it.
\<close>

lemma scan_robots_find:
  assumes "quiet_net net" and "tame net"
  shows "scan_robots depth net lines g [] =
     (let ds = map (\<lambda>line. strip (drop 8 line) whitespace)
                 (filter (\<lambda>line. startswith (lower line) ''sitemap:'') lines);
          resolve = (\<lambda>a. get_urls_from_sitemap depth net (Some a));
          ok = (\<lambda>a. returned (resolve a) \<noteq> [])
      in ((None, case find ok ds of None \<Rightarrow> (g, []) | Some a \<Rightarrow> (a, returned (resolve a))),
          concat (map (\<lambda>a. snd (resolve a))
            (takeWhile (\<lambda>a. \<not> ok a) ds @ (case find ok ds of None \<Rightarrow> [] | Some a \<Rightarrow> [a])))))"
proof (induction lines)
  case Nil
  then show ?case by simp
next
  case (Cons line lines)
  have q: "print_fails net l u = None" for l u using assms(1) by (simp add: quiet_net_def)
  show ?case
  proof (cases "startswith (lower line) ''sitemap:''")
    case True
    let ?a = "strip (drop 8 line) whitespace"
    from get_urls_from_sitemap_returns [OF assms, of depth "Some ?a"]
    obtain urls log where g: "get_urls_from_sitemap depth net (Some ?a) = (Inr urls, log)"
      by (cases "get_urls_from_sitemap depth net (Some ?a)") auto
    then have r: "returned (get_urls_from_sitemap depth net (Some ?a)) = urls"
      by (simp add: returned_def)
    show ?thesis
    proof (cases "urls = []")
      case True
      with \<open>startswith (lower line) ''sitemap:''\<close> after_first_colon_directive [of line] q g r Cons
      show ?thesis by (simp add: Let_def split: option.splits)
    next
      case False
      with \<open>startswith (lower line) ''sitemap:''\<close> after_first_colon_directive [of line] q g r
      show ?thesis by (simp add: Let_def)
    qed
  next
    case False
    with Cons show ?thesis by simp
  qed
qed

text \<open>
  Claim C6, as stated, fails where the first sitemap directive of robots.txt leads to no
  URL: the loop goes on to the second directive and returns its sitemap and URLs, not the
  guessed sitemap URL with an empty list. The third directive, after the winner, is not
  resolved.
\<close>

theorem check_and_get_sitemap_urls_second_directive:
  "get_urls_from_sitemap 5 small_web (Some ''https://b.test/sitemap.xml'')
     = (Inr [], [Some ''https://b.test/sitemap.xml''])
   \<and> robots_directives small_robots
        = [''https://a.test/1.xml'', ''https://a.test/2.xml'', ''https://a.test/3.xml'']
   \<and> get_urls_from_sitemap 5 small_web (Some ''https://a.test/1.xml'')
        = (Inr [], [Some ''https://a.test/1.xml''])
   \<and> check_and_get_sitemap_urls 5 small_web small_urlparse ''b.test/''
        = (Inr (''https://a.test/2.xml'', [Some ''https://a.test/p'', Some ''https://a.test/q'']),
           [Some ''https://b.test/sitemap.xml'', Some ''https://b.test/robots.txt'',
            Some ''https://a.test/1.xml'', Some ''https://a.test/2.xml''])"
  by code_simp

text \<open>
  Where the print of line 190 raises, which stands inside the \<^verbatim>\<open>try\<close>, the handler of line
  195 ends the scan: no directive is resolved and the guess is returned with the empty
  list. Where the print of line 150 raises in the call of line 191, the same happens
  after the request for the first directive.
\<close>

lemma check_and_get_sitemap_urls_print_raises:
  "check_and_get_sitemap_urls 5 web_print_190 small_urlparse ''b.test/''
     = (Inr (''https://b.test/sitemap.xml'', []),
        [Some ''https://b.test/sitemap.xml'', Some ''https://b.test/robots.txt''])
   \<and> check_and_get_sitemap_urls 5 web_print_150 small_urlparse ''b.test/''
     = (Inr (''https://b.test/sitemap.xml'', []),
        [Some ''https://b.test/sitemap.xml'', Some ''https://b.test/robots.txt'',
         Some ''https://a.test/1.xml''])"
  by code_simp

text \<open>
  Claim C6, amended. Let no print raise, and let the HTTP layer, the parser and
  \<^verbatim>\<open>urlparse\<close> raise subclasses of \<^verbatim>\<open>Exception\<close> only; \<open>guess\<close> is the sitemap URL formed from
  the normalized site URL. No exception leaves \<^verbatim>\<open>check_and_get_sitemap_urls\<close>. When the
  sitemap at \<open>guess\<close> gives URLs, they are returned with \<open>guess\<close>, and nothing else is
  requested. Otherwise robots.txt is requested from the scheme and host of the site; of
  its sitemap directives, taken in order, the first whose sitemap gives at least one URL
  wins, and that URL is returned with its URLs; the requests sent after that for
  robots.txt are those of resolving the directives before the winner and the winner, in
  order: no directive after the winner is resolved. When no directive gives a URL, or
  robots.txt cannot be fetched with the status 200, the result is \<open>guess\<close> with the empty
  list.
\<close>

theorem check_and_get_sitemap_urls_fallback:
  assumes "quiet_net net" and "tame net" and "\<forall>u e. urlparse u = Inl e \<longrightarrow> is_exception e"
    and "base_url = (if \<not> (startswith (rstrip url ''/'') ''http://''
                               \<or> startswith (rstrip url ''/'') ''https://'')
                        then ''https://'' @ rstrip url ''/'' else rstrip url ''/'')"
    and "guess = format_sitemap_url base_url"
  shows "let resolve = (\<lambda>a. get_urls_from_sitemap depth net (Some a));
             ok = (\<lambda>a. returned (resolve a) \<noteq> []);
             log = snd (resolve guess)
         in check_and_get_sitemap_urls depth net urlparse url =
             (if ok guess then (Inr (guess, returned (resolve guess)), log)
              else case urlparse base_url of
                     Inl e \<Rightarrow> (Inr (guess, []), log)
                   | Inr parsed_url \<Rightarrow>
                       (let robots_url = scheme parsed_url @ ''://'' @ netloc parsed_url @ ''/robots.txt''
                        in case requests_get net robots_url of
                             Inl e \<Rightarrow> (Inr (guess, []), log @ [Some robots_url])
                           | Inr response \<Rightarrow>
                               if status_code response = 200
                               then (let ds = robots_directives (body response)
                                     in (Inr (case find ok ds of
                                                None \<Rightarrow> (guess, [])
                                              | Some a \<Rightarrow> (a, returned (resolve a))),
                                         log @ Some robots_url
                                           # concat (map (\<lambda>a. snd (resolve a))
                                               (takeWhile (\<lambda>a. \<not> ok a) ds
                                                @ (case find ok ds of None \<Rightarrow> [] | Some a \<Rightarrow> [a])))))
                               else (Inr (guess, []), log @ [Some robots_url])))"
proof -
  let ?resolve = "\<lambda>a. get_urls_from_sitemap depth net (Some a)"
  let ?ok = "\<lambda>a. returned (?resolve a) \<noteq> []"
  have q: "print_fails net l u = None" for l u using assms(1) by (simp add: quiet_net_def)
  from get_urls_from_sitemap_returns [OF assms(1,2), of depth "Some guess"]
  obtain direct log where g: "?resolve guess = (Inr direct, log)"
    by (cases "?resolve guess") auto
  then have r: "returned (?resolve guess) = direct" and l: "snd (?resolve guess) = log"
    by (simp_all add: returned_def)
  have u: "check_and_get_sitemap_urls depth net urlparse url =
      (if direct = []
       then (case try_robots depth net urlparse base_url guess direct of
               ((None, sitemap_url, urls), log') \<Rightarrow> (Inr (sitemap_url, urls), log @ log')
             | ((Some e, sitemap_url, urls), log') \<Rightarrow>
                 if is_exception e
                 then (case print_fails net 196 None of
                         Some e' \<Rightarrow> (Inl e', log @ log')
                       | None \<Rightarrow> (Inr (sitemap_url, urls), log @ log'))
                 else (Inl e, log @ log'))
       else (Inr (guess, direct), log))"
    unfolding check_and_get_sitemap_urls_def Let_def assms(5) assms(4) g [unfolded assms(5) assms(4)]
    by simp
  show ?thesis
  proof (cases "direct = []")
    case False
    then show ?thesis unfolding Let_def u r l by simp
  next
    case True
    show ?thesis
    proof (cases "urlparse base_url")
      case (Inl e)
      with assms(3) have "is_exception e" by blast
      with Inl True show ?thesis unfolding Let_def u r l by (simp add: try_robots_def q)
    next
      case (Inr parsed_url)
      let ?robots_url = "scheme parsed_url @ ''://'' @ netloc parsed_url @ ''/robots.txt''"
      show ?thesis
      proof (cases "requests_get net ?robots_url")
        case (Inl e)
        with assms(2) have "is_exception e" by (auto simp: tame_def)
        with Inl Inr True show ?thesis unfolding Let_def u r l by (simp add: try_robots_def q)
      next
        case response: (Inr response)
        show ?thesis
        proof (cases "status_code response = 200")
          case False
          with response Inr True show ?thesis unfolding Let_def u r l
            by (simp add: try_robots_def q)
        next
          case ok: True
          note s = scan_robots_find [OF assms(1,2), of depth "split (body response) (CHR 0x0A)" guess,
              unfolded Let_def, folded robots_directives_def]
          have t: "try_robots depth net urlparse base_url guess [] =
             ((None, case find ?ok (robots_directives (body response)) of
                       None \<Rightarrow> (guess, [])
                     | Some a \<Rightarrow> (a, returned (?resolve a))),
              Some ?robots_url # concat (map (\<lambda>a. snd (?resolve a))
                 (takeWhile (\<lambda>a. \<not> ?ok a) (robots_directives (body response))
                  @ (case find ?ok (robots_directives (body response)) of
                       None \<Rightarrow> [] | Some a \<Rightarrow> [a]))))"
            using Inr response ok by (simp add: try_robots_def q Let_def s)
          show ?thesis unfolding Let_def u r l using True Inr response ok
            by (simp add: t split: option.splits)
        qed
      qed
    qed
  qed
qed

theorem check_and_get_sitemap_urls_fallback_witness:
  "check_and_get_sitemap_urls 5 small_web small_urlparse ''b.test/''
     = (Inr (''https://a.test/2.xml'', [Some ''https://a.test/p'', Some ''https://a.test/q'']),
        [Some ''https://b.test/sitemap.xml'', Some ''https://b.test/robots.txt'',
         Some ''https://a.test/1.xml'', Some ''https://a.test/2.xml''])"
proof -
  let ?resolve = "\<lambda>a. get_urls_from_sitemap 5 small_web (Some a)"
  let ?ok = "\<lambda>a. returned (?resolve a) \<noteq> []"
  have b: "(if \<not> (startswith (rstrip ''b.test/'' ''/'') ''http://''
                               \<or> startswith (rstrip ''b.test/'' ''/'') ''https://'')
                        then ''https://'' @ rstrip ''b.test/'' ''/'' else rstrip ''b.test/'' ''/'')
            = ''https://b.test''"
    by code_simp
  have g: "format_sitemap_url ''https://b.test'' = ''https://b.test/sitemap.xml''" by code_simp
  have up: "\<forall>u e. small_urlparse u = Inl e \<longrightarrow> is_exception e"
    by (simp add: small_urlparse_def)
  have d: "\<not> ?ok ''https://b.test/sitemap.xml''" by code_simp
  have l: "snd (?resolve ''https://b.test/sitemap.xml'') = [Some ''https://b.test/sitemap.xml'']"
    by code_simp
  have p: "small_urlparse ''https://b.test''
      = Inr \<lparr>scheme = ''https'', netloc = ''b.test'', path = []\<rparr>"
    by code_simp
  have r: "requests_get small_web ''https://b.test/robots.txt''
      = Inr \<lparr>status_code = 200, body = small_robots\<rparr>"
    by code_simp
  have f: "find ?ok (robots_directives small_robots) = Some ''https://a.test/2.xml''"
    by code_simp
  have c: "takeWhile (\<lambda>a. returned (?resolve a) = []) (robots_directives small_robots)
      = [''https://a.test/1.xml'']"
    by code_simp
  have w: "returned (?resolve ''https://a.test/2.xml'')
      = [Some ''https://a.test/p'', Some ''https://a.test/q'']"
    by code_simp
  have l1: "snd (?resolve ''https://a.test/1.xml'') = [Some ''https://a.test/1.xml'']"
    by code_simp
  have l2: "snd (?resolve ''https://a.test/2.xml'') = [Some ''https://a.test/2.xml'']"
    by code_simp
  from check_and_get_sitemap_urls_fallback [OF quiet_small_web tame_small_web up
      b [symmetric] g [symmetric], of 5]
  show ?thesis unfolding Let_def p by (simp add: d l r f c w l1 l2)
qed

end
